theory Spec2Isabelle
  imports Complex_Main "HOL-Library.List_Lexorder" "HOL-Library.Log_Nat"
begin

section \<open>Python values\<close>

text \<open>
  A Python \<open>str\<close> is a sequence of code points. Lists of code points are ordered
  lexicographically, as Python orders strings.
\<close>

type_synonym pystr = "int list"

definition lit :: "string \<Rightarrow> pystr" where
  "lit cs = map of_char cs"

text \<open>
  The exceptions the script can raise. \<open>Unsupported\<close> is not a Python exception: it marks
  the places where a run leaves the fragment of Python modelled here (formatting a list,
  a dict or a boolean; sorting a list of numbers).
\<close>

datatype error = AttributeError | TypeError | ValueError | OverflowError | IndexError
  | Unsupported

text \<open>
  What \<open>json.load\<close> returns: \<open>None\<close>, a \<open>bool\<close>, an \<open>int\<close>, a \<open>str\<close>, a \<open>list\<close> or a
  \<open>dict\<close> (its items, keys without repetition). Numbers with a fraction or an exponent
  are not modelled.
\<close>

datatype json = JNull | JBool bool | JInt int | JStr pystr | JArr "json list"
  | JObj "(pystr \<times> json) list"

function digits :: "int \<Rightarrow> pystr" where
  "digits n = (if n < 10 then [48 + n] else digits (n div 10) @ [48 + n mod 10])"
  by pat_completeness auto
termination
  by (relation "measure (\<lambda>n. nat n)") auto

declare digits.simps [simp del]

definition str_int :: "int \<Rightarrow> pystr" where
  "str_int i = (if i < 0 then lit ''-'' @ digits (- i) else digits i)"

definition pad2 :: "int \<Rightarrow> pystr" where
  "pad2 i = (if 0 \<le> i \<and> i < 10 then lit ''0'' @ str_int i else str_int i)"

fun py_rep :: "pystr \<Rightarrow> int \<Rightarrow> pystr" where
  "py_rep s n = concat (replicate (nat n) s)"

fun join :: "pystr \<Rightarrow> pystr list \<Rightarrow> pystr" where
  "join sep [] = []"
| "join sep [x] = x"
| "join sep (x # y # ys) = x @ sep @ join sep (y # ys)"

section \<open>Calendar dates\<close>

text \<open>
  A \<open>datetime.date\<close> is kept as its proleptic Gregorian ordinal (\<open>date.toordinal()\<close>):
  day 1 is 0001-01-01, the last date is 9999-12-31. Comparing dates compares ordinals,
  the difference of two dates is the difference of their ordinals, and arithmetic that
  leaves the range raises \<open>OverflowError\<close>.
\<close>

type_synonym date = int

definition MINORD :: int where "MINORD = 1"
definition MAXORD :: int where "MAXORD = 3652059"

definition is_leap :: "int \<Rightarrow> bool" where
  "is_leap y = (y mod 4 = 0 \<and> (y mod 100 \<noteq> 0 \<or> y mod 400 = 0))"

definition days_before_year :: "int \<Rightarrow> int" where
  "days_before_year year = (let y = year - 1 in y * 365 + y div 4 - y div 100 + y div 400)"

definition DAYS_IN_MONTH :: "int list" where
  "DAYS_IN_MONTH = [31, 28, 31, 30, 31, 30, 31, 31, 30, 31, 30, 31]"

definition DAYS_BEFORE_MONTH :: "int list" where
  "DAYS_BEFORE_MONTH = [0, 31, 59, 90, 120, 151, 181, 212, 243, 273, 304, 334]"

definition days_in_month :: "int \<Rightarrow> int \<Rightarrow> int" where
  "days_in_month y m = (if m = 2 \<and> is_leap y then 29 else DAYS_IN_MONTH ! nat (m - 1))"

definition days_before_month :: "int \<Rightarrow> int \<Rightarrow> int" where
  "days_before_month y m =
     DAYS_BEFORE_MONTH ! nat (m - 1) + (if m > 2 \<and> is_leap y then 1 else 0)"

definition ymd2ord :: "int \<Rightarrow> int \<Rightarrow> int \<Rightarrow> date" where
  "ymd2ord y m d = days_before_year y + days_before_month y m + d"

definition ord2ymd :: "date \<Rightarrow> int \<times> int \<times> int" where
  "ord2ymd ordinal =
     (let n = ordinal - 1;
          n400 = n div 146097; n = n mod 146097;
          n100 = n div 36524; n = n mod 36524;
          n4 = n div 1461; n = n mod 1461;
          n1 = n div 365; n = n mod 365;
          year = n400 * 400 + 1 + n100 * 100 + n4 * 4 + n1
      in if n1 = 4 \<or> n100 = 4 then (year - 1, 12, 31)
         else
           let leapyear = (n1 = 3 \<and> (n4 \<noteq> 24 \<or> n100 = 3));
               month = (n + 50) div 32;
               preceding = DAYS_BEFORE_MONTH ! nat (month - 1)
                            + (if month > 2 \<and> leapyear then 1 else 0)
           in if preceding > n
              then let month' = month - 1;
                       preceding' = preceding - (DAYS_IN_MONTH ! nat (month' - 1)
                                      + (if month' = 2 \<and> leapyear then 1 else 0))
                   in (year, month', n - preceding' + 1)
              else (year, month, n - preceding + 1))"

definition weekday :: "date \<Rightarrow> int" where
  "weekday d = (d + 6) mod 7"

text \<open>\<open>d + timedelta(days=k)\<close>; \<open>d - timedelta(days=k)\<close> is \<open>date_add d (- k)\<close>.\<close>

definition date_add :: "date \<Rightarrow> int \<Rightarrow> error + date" where
  "date_add d k = (if MINORD \<le> d + k \<and> d + k \<le> MAXORD then Inr (d + k) else Inl OverflowError)"

text \<open>
  \<open>strftime("%Y-%m-%d")\<close> as the C library of the workflow's Linux runner formats it:
  the year in decimal without padding, month and day with two digits.
\<close>

definition strftime :: "date \<Rightarrow> pystr" where
  "strftime d = (case ord2ymd d of (y, m, dd) \<Rightarrow>
     str_int y @ lit ''-'' @ pad2 m @ lit ''-'' @ pad2 dd)"

text \<open>
  \<open>datetime.strptime(s, "%Y-%m-%d").date()\<close> on a string. The format compiles to the
  pattern \<open>(\d\d\d\d)-(1[0-2]|0[1-9]|[1-9])-(3[01]|[12]\d|0[1-9]|[1-9]| [1-9])\<close>, which
  has to match a prefix that is the whole string; then the year must not be 0 and the
  day must exist in the month. Digits are the ASCII digits.
\<close>

definition is_digit :: "int \<Rightarrow> bool" where
  "is_digit c = (48 \<le> c \<and> c \<le> 57)"

definition dval :: "int \<Rightarrow> int" where
  "dval c = c - 48"

fun match_month :: "pystr \<Rightarrow> (int \<times> pystr) option" where
  "match_month (a # b # r) =
     (if a = 49 \<and> 48 \<le> b \<and> b \<le> 50 then Some (10 + dval b, r)
      else if a = 48 \<and> 49 \<le> b \<and> b \<le> 57 then Some (dval b, r)
      else if 49 \<le> a \<and> a \<le> 57 then Some (dval a, b # r)
      else None)"
| "match_month [a] = (if 49 \<le> a \<and> a \<le> 57 then Some (dval a, []) else None)"
| "match_month [] = None"

fun match_day :: "pystr \<Rightarrow> (int \<times> pystr) option" where
  "match_day (a # b # r) =
     (if a = 51 \<and> 48 \<le> b \<and> b \<le> 49 then Some (30 + dval b, r)
      else if 49 \<le> a \<and> a \<le> 50 \<and> is_digit b then Some (10 * dval a + dval b, r)
      else if a = 48 \<and> 49 \<le> b \<and> b \<le> 57 then Some (dval b, r)
      else if 49 \<le> a \<and> a \<le> 57 then Some (dval a, b # r)
      else if a = 32 \<and> 49 \<le> b \<and> b \<le> 57 then Some (dval b, r)
      else None)"
| "match_day [a] = (if 49 \<le> a \<and> a \<le> 57 then Some (dval a, []) else None)"
| "match_day [] = None"

fun strptime :: "pystr \<Rightarrow> error + date" where
  "strptime (y1 # y2 # y3 # y4 # h1 # r) =
     (if is_digit y1 \<and> is_digit y2 \<and> is_digit y3 \<and> is_digit y4 \<and> h1 = 45
      then (case match_month r of
              None \<Rightarrow> Inl ValueError
            | Some (m, r') \<Rightarrow>
                (case r' of
                   h2 # r'' \<Rightarrow>
                     (if h2 = 45
                      then (case match_day r'' of
                              None \<Rightarrow> Inl ValueError
                            | Some (d, rest) \<Rightarrow>
                                (let y = 1000 * dval y1 + 100 * dval y2 + 10 * dval y3 + dval y4
                                 in if rest \<noteq> [] then Inl ValueError
                                    else if y < 1 then Inl ValueError
                                    else if d > days_in_month y m then Inl ValueError
                                    else Inr (ymd2ord y m d)))
                      else Inl ValueError)
                 | [] \<Rightarrow> Inl ValueError))
      else Inl ValueError)"
| "strptime _ = Inl ValueError"

section \<open>Operations on decoded JSON values\<close>

fun py_truthy :: "json \<Rightarrow> bool" where
  "py_truthy JNull = False"
| "py_truthy (JBool b) = b"
| "py_truthy (JInt i) = (i \<noteq> 0)"
| "py_truthy (JStr s) = (s \<noteq> [])"
| "py_truthy (JArr xs) = (xs \<noteq> [])"
| "py_truthy (JObj kvs) = (kvs \<noteq> [])"

text \<open>Iterating: a list gives its elements, a string its characters, a dict its keys.\<close>

fun py_iter :: "json \<Rightarrow> error + json list" where
  "py_iter (JArr xs) = Inr xs"
| "py_iter (JStr s) = Inr (map (\<lambda>c. JStr [c]) s)"
| "py_iter (JObj kvs) = Inr (map (\<lambda>kv. JStr (fst kv)) kvs)"
| "py_iter _ = Inl TypeError"

fun py_len :: "json \<Rightarrow> error + int" where
  "py_len (JArr xs) = Inr (int (length xs))"
| "py_len (JStr s) = Inr (int (length s))"
| "py_len (JObj kvs) = Inr (int (length kvs))"
| "py_len _ = Inl TypeError"

fun substring :: "pystr \<Rightarrow> pystr \<Rightarrow> bool" where
  "substring t [] = (t = [])"
| "substring t (c # s) = (take (length t) (c # s) = t \<or> substring t s)"

text \<open>\<open>x in v\<close> for a string \<open>x\<close>.\<close>

fun py_in :: "pystr \<Rightarrow> json \<Rightarrow> error + bool" where
  "py_in t (JArr xs) = Inr (JStr t \<in> set xs)"
| "py_in t (JStr s) = Inr (substring t s)"
| "py_in t (JObj kvs) = Inr (t \<in> set (map fst kvs))"
| "py_in t _ = Inl TypeError"

fun py_append :: "json \<Rightarrow> json \<Rightarrow> error + json" where
  "py_append (JArr xs) x = Inr (JArr (xs @ [x]))"
| "py_append _ x = Inl AttributeError"

text \<open>\<open>d.get(k, default)\<close> and \<open>d[k] = v\<close> on the items of a dict.\<close>

definition dict_get :: "(pystr \<times> json) list \<Rightarrow> pystr \<Rightarrow> json \<Rightarrow> json" where
  "dict_get kvs k dflt = (case map_of kvs k of None \<Rightarrow> dflt | Some v \<Rightarrow> v)"

fun dict_set :: "(pystr \<times> json) list \<Rightarrow> pystr \<Rightarrow> json \<Rightarrow> (pystr \<times> json) list" where
  "dict_set [] k v = [(k, v)]"
| "dict_set ((k', v') # r) k v = (if k' = k then (k, v) # r else (k', v') # dict_set r k v)"

text \<open>\<open>data.get(k, default)\<close> on whatever was loaded: only a dict has \<open>get\<close>.\<close>

fun py_get :: "json \<Rightarrow> pystr \<Rightarrow> json \<Rightarrow> error + json" where
  "py_get (JObj kvs) k dflt = Inr (dict_get kvs k dflt)"
| "py_get _ k dflt = Inl AttributeError"

text \<open>
  \<open>max(v, n)\<close> for an integer \<open>n\<close>: Python evaluates \<open>n > v\<close> and keeps \<open>v\<close> unless it holds.
  A boolean that is kept stays a boolean, which is outside the model.
\<close>

fun py_max :: "json \<Rightarrow> int \<Rightarrow> error + int" where
  "py_max (JInt a) n = Inr (if n > a then n else a)"
| "py_max (JBool b) n = (if n > (if b then 1 else 0) then Inr n else Inl Unsupported)"
| "py_max _ n = Inl TypeError"

text \<open>\<open>str(v)\<close>, as an f-string formats a value.\<close>

fun py_str :: "json \<Rightarrow> error + pystr" where
  "py_str (JStr s) = Inr s"
| "py_str (JInt i) = Inr (str_int i)"
| "py_str JNull = Inr (lit ''None'')"
| "py_str (JBool b) = Inr (if b then lit ''True'' else lit ''False'')"
| "py_str _ = Inl Unsupported"

fun map_err :: "('a \<Rightarrow> error + 'b) \<Rightarrow> 'a list \<Rightarrow> error + 'b list" where
  "map_err f [] = Inr []"
| "map_err f (x # xs) =
     (case f x of
        Inl e \<Rightarrow> Inl e
      | Inr y \<Rightarrow> (case map_err f xs of Inl e \<Rightarrow> Inl e | Inr ys \<Rightarrow> Inr (y # ys)))"

section \<open>The script\<close>

text \<open>
  The system clock: \<open>clk i\<close> is the UTC date that the \<open>i\<close>-th call of
  \<open>datetime.utcnow()\<close> in a run returns. Every function that reads the clock takes the
  number of readings made so far and returns the new count with its result.
\<close>

type_synonym clock = "nat \<Rightarrow> date"

definition today_str :: "clock \<Rightarrow> nat \<Rightarrow> pystr \<times> nat" where
  "today_str clk n = (strftime (clk n), Suc n)"

fun to_date :: "json \<Rightarrow> error + date" where
  "to_date (JStr s) = strptime s"
| "to_date _ = Inl TypeError"

text \<open>
  The two files of the working directory. The data file holds a document that
  \<open>json.load\<close> decodes, or text that it rejects; the report holds text. A file that does
  not exist is \<open>None\<close>. A file read back holds what was written: encoding and newline
  translation are not modelled.
\<close>

datatype stored = Malformed pystr | Doc json

record files =
  data_file :: "stored option"
  streak_md :: "pystr option"

definition fresh_data :: "pystr \<Rightarrow> json" where
  "fresh_data t = JObj [(lit ''dates'', JArr []), (lit ''longest_streak'', JInt 0),
     (lit ''created_at'', JStr t)]"

definition load_data :: "clock \<Rightarrow> nat \<Rightarrow> files \<Rightarrow> json \<times> nat" where
  "load_data clk n fs =
     (case data_file fs of
        None \<Rightarrow> (let (t, n') = today_str clk n in (fresh_data t, n'))
      | Some (Malformed _) \<Rightarrow> (let (t, n') = today_str clk n in (fresh_data t, n'))
      | Some (Doc v) \<Rightarrow> (v, n))"

definition save_data :: "json \<Rightarrow> files \<Rightarrow> files" where
  "save_data data fs = fs\<lparr>data_file := Some (Doc data)\<rparr>"

text \<open>
  \<open>sorted(list(set(dates)))\<close>. A list or dict among the elements cannot be hashed;
  strings sort; \<open>None\<close> alone needs no comparison; anything mixed cannot be compared.
  Sorting numbers succeeds in Python and is outside the model.
\<close>

fun is_str :: "json \<Rightarrow> bool" where
  "is_str (JStr s) = True"
| "is_str _ = False"

fun the_str :: "json \<Rightarrow> pystr" where
  "the_str (JStr s) = s"
| "the_str _ = []"

fun unhashable :: "json \<Rightarrow> bool" where
  "unhashable (JArr xs) = True"
| "unhashable (JObj kvs) = True"
| "unhashable _ = False"

fun is_num :: "json \<Rightarrow> bool" where
  "is_num (JInt i) = True"
| "is_num (JBool b) = True"
| "is_num _ = False"

definition normalize_dates :: "json \<Rightarrow> error + json list" where
  "normalize_dates dates =
     (case py_iter dates of
        Inl e \<Rightarrow> Inl e
      | Inr xs \<Rightarrow>
          if list_ex unhashable xs then Inl TypeError
          else if list_all is_str xs then Inr (map JStr (sort (remdups (map the_str xs))))
          else if list_all (\<lambda>x. x = JNull) xs then Inr [JNull]
          else if list_all is_num xs then Inl Unsupported
          else Inl TypeError)"

text \<open>The loop of \<open>calculate_streak\<close> over \<open>dates[1:]\<close>, \<open>prev\<close> being \<open>dates[i - 1]\<close>.\<close>

fun chain_loop :: "date \<Rightarrow> date list \<Rightarrow> int \<Rightarrow> int \<Rightarrow> int \<times> int" where
  "chain_loop prev [] current_chain longest = (current_chain, longest)"
| "chain_loop prev (d # ds) current_chain longest =
     (let current_chain' = (if d - prev = 1 then current_chain + 1 else 1);
          longest' = (if current_chain' > longest then current_chain' else longest)
      in chain_loop d ds current_chain' longest')"

definition calculate_streak :: "clock \<Rightarrow> nat \<Rightarrow> json \<Rightarrow> error + ((int \<times> int) \<times> nat)" where
  "calculate_streak clk n dates_str =
     (if \<not> py_truthy dates_str then Inr ((0, 0), n)
      else case py_iter dates_str of
        Inl e \<Rightarrow> Inl e
      | Inr xs \<Rightarrow>
         (case map_err to_date xs of
            Inl e \<Rightarrow> Inl e
          | Inr ds \<Rightarrow>
             (case sort ds of
                [] \<Rightarrow> Inl IndexError
              | d0 # rest \<Rightarrow>
                 (case chain_loop d0 rest 1 1 of
                    (current_chain, longest) \<Rightarrow>
                      let today = clk n; lastd = last (d0 # rest)
                      in if lastd = today then Inr ((current_chain, longest), Suc n)
                         else (case date_add today (- 1) of
                                 Inl e \<Rightarrow> Inl e
                               | Inr yesterday \<Rightarrow>
                                   if lastd = yesterday
                                   then Inr ((current_chain, longest), Suc n)
                                   else Inr ((0, longest), Suc n))))))"

definition add_today_if_missing ::
    "clock \<Rightarrow> nat \<Rightarrow> json \<Rightarrow> error + ((json \<times> int \<times> int) \<times> nat)" where
  "add_today_if_missing clk n data =
     (case today_str clk n of
        (t, n1) \<Rightarrow>
         (case data of
            JObj kvs \<Rightarrow>
             (let dates0 = dict_get kvs (lit ''dates'') (JArr [])
              in case py_in t dates0 of
                   Inl e \<Rightarrow> Inl e
                 | Inr present \<Rightarrow>
                    (case (if \<not> present then py_append dates0 (JStr t) else Inr dates0) of
                       Inl e \<Rightarrow> Inl e
                     | Inr dates1 \<Rightarrow>
                        (case normalize_dates dates1 of
                           Inl e \<Rightarrow> Inl e
                         | Inr dates \<Rightarrow>
                            (let kvs1 = dict_set kvs (lit ''dates'') (JArr dates)
                             in case calculate_streak clk n1 (JArr dates) of
                                  Inl e \<Rightarrow> Inl e
                                | Inr ((current, longest), n2) \<Rightarrow>
                                   (case py_max (dict_get kvs1 (lit ''longest_streak'') (JInt 0))
                                           longest of
                                      Inl e \<Rightarrow> Inl e
                                    | Inr m \<Rightarrow>
                                       Inr ((JObj (dict_set kvs1 (lit ''longest_streak'') (JInt m)),
                                             current, m), n2))))))
          | _ \<Rightarrow> Inl AttributeError))"

subsection \<open>The progress bar\<close>

text \<open>
  Python's \<open>float\<close> is IEEE binary64. A finite float is kept as the rational number it
  denotes; \<open>fl_round\<close> rounds a rational to the nearest float, ties to the even
  significand, with 53 bits of precision down to the exponent of the subnormal numbers.
  Converting an integer that rounds to \<open>2 ^ 1024\<close> or more raises \<open>OverflowError\<close>.
\<close>

definition round_even :: "rat \<Rightarrow> int" where
  "round_even y =
     (let f = \<lfloor>y\<rfloor>; d = y - of_int f
      in if d < 1 / 2 then f else if d > 1 / 2 then f + 1 else if even f then f else f + 1)"

definition ilog2 :: "rat \<Rightarrow> int" where
  "ilog2 x =
     (case quotient_of x of
        (a, b) \<Rightarrow> let e = bitlen a - bitlen b in if 2 powi e \<le> x then e else e - 1)"

definition fl_round :: "rat \<Rightarrow> rat" where
  "fl_round x =
     (if x = 0 then 0
      else let e = max (ilog2 \<bar>x\<bar>) (- 1022); u = 2 powi (e - 52)
           in of_int (round_even (x / u)) * u)"

definition to_float :: "int \<Rightarrow> error + rat" where
  "to_float i =
     (let r = fl_round (of_int i) in if \<bar>r\<bar> \<ge> 2 ^ 1024 then Inl OverflowError else Inr r)"

text \<open>\<open>int(x)\<close> of a float truncates towards zero.\<close>

definition py_trunc :: "rat \<Rightarrow> int" where
  "py_trunc x = (if x \<ge> 0 then \<lfloor>x\<rfloor> else \<lceil>x\<rceil>)"

text \<open>
  \<open>filled\<close> in \<open>make_bar\<close>:
  \<open>ratio = min(1.0, current / float(longest or 1))\<close>,
  \<open>filled = int(width * ratio) if current > 0 else 0\<close>.
\<close>

definition bar_ratio :: "int \<Rightarrow> int \<Rightarrow> error + rat" where
  "bar_ratio current longest =
     (case to_float (if longest = 0 then 1 else longest) of
        Inl e \<Rightarrow> Inl e
      | Inr fl \<Rightarrow>
         (case to_float current of
            Inl e \<Rightarrow> Inl e
          | Inr fc \<Rightarrow> Inr (min 1 (fl_round (fc / fl)))))"

definition bar_filled :: "int \<Rightarrow> int \<Rightarrow> int \<Rightarrow> error + int" where
  "bar_filled current longest width =
     (case bar_ratio current longest of
        Inl e \<Rightarrow> Inl e
      | Inr ratio \<Rightarrow>
          if current > 0
          then (case to_float width of
                  Inl e \<Rightarrow> Inl e
                | Inr fw \<Rightarrow> Inr (py_trunc (fl_round (fw * ratio))))
          else Inr 0)"

definition FIRE :: pystr where "FIRE = [128293]"
definition DOT :: pystr where "DOT = [183]"

definition make_bar :: "int \<Rightarrow> int \<Rightarrow> int \<Rightarrow> error + pystr" where
  "make_bar current longest width =
     (if longest \<le> 0 then Inr (lit ''No streak yet. Start today. '' @ FIRE)
      else case bar_filled current longest width of
             Inl e \<Rightarrow> Inl e
           | Inr filled \<Rightarrow>
               Inr (py_rep FIRE filled @ py_rep DOT (width - filled)
                    @ lit ''  ('' @ str_int current @ lit ''/'' @ str_int longest
                    @ lit '' days)''))"

subsection \<open>The calendar\<close>

definition BLANK :: pystr where "BLANK = lit ''  ''"
definition ACTIVE :: pystr where "ACTIVE = [9608, 9608]"
definition INACTIVE :: pystr where "INACTIVE = [9617, 9617]"

text \<open>The \<open>while cur <= today\<close> loop; it returns the open week and the finished lines.\<close>

function cal_loop ::
    "date \<Rightarrow> date \<Rightarrow> date list \<Rightarrow> date \<Rightarrow> pystr list \<Rightarrow> pystr list
      \<Rightarrow> error + (pystr list \<times> pystr list)" where
  "cal_loop today start dates cur week out_lines =
     (if cur \<le> today
      then (let cell = (if cur < start then BLANK
                        else if cur \<in> set dates then ACTIVE else INACTIVE);
                week1 = week @ [cell];
                out1 = (if length week1 = 7 then out_lines @ [join (lit '' '') week1]
                        else out_lines);
                week2 = (if length week1 = 7 then [] else week1)
            in if cur + 1 \<le> MAXORD
               then cal_loop today start dates (cur + 1) week2 out1
               else Inl OverflowError)
      else Inr (week, out_lines))"
  by pat_completeness auto
termination
  by (relation "measure (\<lambda>(today, start, dates, cur, week, out_lines). nat (today + 1 - cur))")
     auto

declare cal_loop.simps [simp del]

definition backtick :: "pystr \<Rightarrow> pystr" where
  "backtick line = lit ''`'' @ line @ lit ''`''"

definition make_calendar_block :: "clock \<Rightarrow> nat \<Rightarrow> json \<Rightarrow> int \<Rightarrow> error + (pystr \<times> nat)" where
  "make_calendar_block clk n dates_str months =
     (if \<not> py_truthy dates_str
      then Inr (lit ''_No activity yet '' @ [8212]
                @ lit '' first run just started the engine._'', n)
      else case py_iter dates_str of
        Inl e \<Rightarrow> Inl e
      | Inr xs \<Rightarrow>
         (case map_err to_date xs of
            Inl e \<Rightarrow> Inl e
          | Inr dates \<Rightarrow>
             (let today = clk n
              in case date_add today (- (months * 30)) of
                   Inl e \<Rightarrow> Inl e
                 | Inr start \<Rightarrow>
                    (case date_add start (- ((weekday start + 1) mod 7)) of
                       Inl e \<Rightarrow> Inl e
                     | Inr cur \<Rightarrow>
                        (case cal_loop today start dates cur []
                                [lit ''Recent Activity Heatmap'',
                                 lit ''`Su Mo Tu We Th Fr Sa`''] of
                           Inl e \<Rightarrow> Inl e
                         | Inr (week, out_lines) \<Rightarrow>
                            (let out_lines' =
                                   (if week \<noteq> []
                                    then out_lines
                                         @ [join (lit '' '')
                                              (week @ replicate (7 - length week) BLANK)]
                                    else out_lines)
                             in Inr (join [10] (map backtick out_lines'), Suc n)))))))"

subsection \<open>The report\<close>

definition NL :: pystr where "NL = [10]"

definition render_streak_md ::
    "clock \<Rightarrow> nat \<Rightarrow> json \<Rightarrow> int \<Rightarrow> int \<Rightarrow> error + (pystr \<times> nat)" where
  "render_streak_md clk n data current longest =
     (case py_get data (lit ''dates'') (JArr []) of
        Inl e \<Rightarrow> Inl e
      | Inr dates \<Rightarrow>
     (case py_len dates of
        Inl e \<Rightarrow> Inl e
      | Inr total_days \<Rightarrow>
     (case today_str clk n of (dflt, n1) \<Rightarrow>
     (case py_get data (lit ''created_at'') (JStr dflt) of
        Inl e \<Rightarrow> Inl e
      | Inr created_at \<Rightarrow>
     (case today_str clk n1 of (last_updated, n2) \<Rightarrow>
     (case make_bar current longest 40 of
        Inl e \<Rightarrow> Inl e
      | Inr bar \<Rightarrow>
     (case make_calendar_block clk n2 dates 4 of
        Inl e \<Rightarrow> Inl e
      | Inr (calendar, n3) \<Rightarrow>
     (case py_str created_at of
        Inl e \<Rightarrow> Inl e
      | Inr created \<Rightarrow>
         Inr (lit ''# '' @ FIRE @ lit '' Automated Repo Streak'' @ NL
              @ NL
              @ lit ''This file is auto-updated daily by **GitHub Actions** to keep track of activity in this repository.'' @ NL
              @ NL
              @ lit ''---'' @ NL
              @ NL
              @ lit ''## '' @ [128202] @ lit '' Streak Status'' @ NL
              @ NL
              @ lit ''- **Current Streak:** `'' @ str_int current @ lit ''` day(s)'' @ NL
              @ lit ''- **Longest Streak:** `'' @ str_int longest @ lit ''` day(s)'' @ NL
              @ lit ''- **Total Active Days:** `'' @ str_int total_days @ lit ''`'' @ NL
              @ lit ''- **Tracking Since:** `'' @ created @ lit ''`'' @ NL
              @ lit ''- **Last Updated (UTC):** `'' @ last_updated @ lit ''`'' @ NL
              @ NL
              @ lit ''---'' @ NL
              @ NL
              @ lit ''## '' @ [128200] @ lit '' Streak Progress'' @ NL
              @ NL
              @ lit ''`'' @ bar @ lit ''`'' @ NL
              @ NL
              @ lit ''---'' @ NL
              @ NL
              @ lit ''## '' @ [128467, 65039] @ lit '' Activity Overview'' @ NL
              @ NL
              @ calendar @ NL
              @ NL
              @ lit ''---'' @ NL
              @ NL
              @ lit ''_This streak is maintained by an automated workflow in this repo. Edit `.github/workflows/daily-streak.yml` or `.github/scripts/update_streak.py` to customize._'' @ NL,
              n3)))))))))"

subsection \<open>Writing the report\<close>

text \<open>The characters that \<open>str.strip()\<close> removes from both ends.\<close>

definition py_isspace :: "int \<Rightarrow> bool" where
  "py_isspace c =
     ((9 \<le> c \<and> c \<le> 13) \<or> (28 \<le> c \<and> c \<le> 32) \<or> c = 133 \<or> c = 160 \<or> c = 5760
      \<or> (8192 \<le> c \<and> c \<le> 8202) \<or> c = 8232 \<or> c = 8233 \<or> c = 8239 \<or> c = 8287
      \<or> c = 12288)"

definition strip :: "pystr \<Rightarrow> pystr" where
  "strip s = rev (dropWhile py_isspace (rev (dropWhile py_isspace s)))"

definition read_file :: "files \<Rightarrow> pystr" where
  "read_file fs = (case streak_md fs of None \<Rightarrow> [] | Some s \<Rightarrow> s)"

definition write_if_changed :: "pystr \<Rightarrow> files \<Rightarrow> files \<times> bool" where
  "write_if_changed new_content fs =
     (let old = read_file fs
      in if strip old \<noteq> strip new_content
         then (fs\<lparr>streak_md := Some new_content\<rparr>, True)
         else (fs, False))"

subsection \<open>A run\<close>

text \<open>
  What a run that ends normally tells its caller: whether the report was written, and
  the lines it printed.
\<close>

record summary =
  changed :: bool
  printed :: "pystr list"

definition summary_line :: "int \<Rightarrow> int \<Rightarrow> int \<Rightarrow> pystr" where
  "summary_line current longest total_days =
     lit ''Current streak: '' @ str_int current @ lit '', Longest streak: ''
     @ str_int longest @ lit '', Total days: '' @ str_int total_days"

definition status_line :: "bool \<Rightarrow> pystr" where
  "status_line ch =
     (if ch then [9989] @ lit '' STREAK.md updated.''
      else [8505, 65039] @ lit '' No changes in streak data (already up-to-date).'')"

text \<open>
  \<open>main\<close> returns the files as the run leaves them, and either the exception that ended
  the run or its summary. An exception raised after \<open>save_data\<close> leaves the data file
  written.
\<close>

definition main :: "clock \<Rightarrow> files \<Rightarrow> files \<times> (error + summary)" where
  "main clk fs =
     (case load_data clk 0 fs of
        (data0, n1) \<Rightarrow>
         (case add_today_if_missing clk n1 data0 of
            Inl e \<Rightarrow> (fs, Inl e)
          | Inr ((data, current, longest), n2) \<Rightarrow>
             (let fs1 = save_data data fs
              in case render_streak_md clk n2 data current longest of
                   Inl e \<Rightarrow> (fs1, Inl e)
                 | Inr (new_md, n3) \<Rightarrow>
                    (case write_if_changed new_md fs1 of
                       (fs2, ch) \<Rightarrow>
                         (case py_get data (lit ''dates'') (JArr []) of
                            Inl e \<Rightarrow> (fs2, Inl e)
                          | Inr dates \<Rightarrow>
                              (case py_len dates of
                                 Inl e \<Rightarrow> (fs2, Inl e)
                               | Inr total_days \<Rightarrow>
                                   (fs2, Inr \<lparr>changed = ch,
                                              printed = [status_line ch,
                                                summary_line current longest total_days]\<rparr>)))))))"

section \<open>What the specification calls a streak\<close>

text \<open>
  The specification's words, to compare the calculator with: \<open>n\<close> consecutive calendar
  days ending on \<open>d\<close> are all active; \<open>m\<close> is the greatest length of such a run anywhere;
  \<open>c\<close> is the greatest length of such a run ending on \<open>d\<close>.
\<close>

definition consecutive_run :: "date set \<Rightarrow> date \<Rightarrow> int \<Rightarrow> bool" where
  "consecutive_run S d n = (1 \<le> n \<and> (\<forall>k. 0 \<le> k \<and> k < n \<longrightarrow> d - k \<in> S))"

definition longest_run :: "date set \<Rightarrow> int \<Rightarrow> bool" where
  "longest_run S m = ((\<exists>d. consecutive_run S d m) \<and> (\<forall>d n. consecutive_run S d n \<longrightarrow> n \<le> m))"

definition run_through :: "date set \<Rightarrow> date \<Rightarrow> int \<Rightarrow> bool" where
  "run_through S d c = (consecutive_run S d c \<and> (\<forall>n. consecutive_run S d n \<longrightarrow> n \<le> c))"

text \<open>What \<open>calculate_streak\<close> returns on a non-empty list of dates that parsed.\<close>

definition streak_result :: "date \<Rightarrow> date list \<Rightarrow> error + (int \<times> int)" where
  "streak_result today ds =
     (case chain_loop (hd (sort ds)) (tl (sort ds)) 1 1 of
        (c, l) \<Rightarrow>
          if Max (set ds) = today then Inr (c, l)
          else if today - 1 < MINORD \<or> MAXORD < today - 1 then Inl OverflowError
          else if Max (set ds) = today - 1 then Inr (c, l)
          else Inr (0, l))"

text \<open>
  To compare two runs that have read the clock a different number of times: the same
  outcome, its count of clock readings moved from a start at \<open>n\<close> to a start at \<open>m\<close>.
\<close>

definition recount :: "nat \<Rightarrow> nat \<Rightarrow> (error + 'a \<times> nat) \<Rightarrow> (error + 'a \<times> nat)" where
  "recount n m = map_sum id (apsnd (\<lambda>k. nat (int k - int n + int m)))"

section \<open>Example inputs\<close>

definition january_dates :: "json list" where
  "january_dates = [JStr (lit ''2024-01-02''), JStr (lit ''2024-01-01''), JStr (lit ''2024-01-03'')]"

definition steady_clock :: clock where "steady_clock i = 739038"
definition straddle_clock :: clock where "straddle_clock i = (if i = 0 then 739038 else 739039)"
definition late_clock :: clock where
  "late_clock i = (if i < 6 then 739038 else 739039)"

definition array_file :: files where
  "array_file = \<lparr>data_file = Some (Doc (JArr [])), streak_md = None\<rparr>"

definition bad_date_file :: files where
  "bad_date_file = \<lparr>data_file = Some (Doc (JObj [(lit ''dates'', JArr [JStr (lit ''hello'')])])),
     streak_md = None\<rparr>"

definition no_files :: files where "no_files = \<lparr>data_file = None, streak_md = None\<rparr>"
definition gap_record :: json where
  "gap_record = JObj [(lit ''dates'', JArr [JStr (lit ''2024-05-01''), JStr (lit ''2024-05-02'')]),
     (lit ''longest_streak'', JInt 5), (lit ''created_at'', JStr (lit ''2024-05-01''))]"

section \<open>The streak calculator\<close>

lemma consecutive_run_mono: "consecutive_run P d n \<Longrightarrow> P \<subseteq> Q \<Longrightarrow> consecutive_run Q d n"
  by (auto simp: consecutive_run_def)

lemma consecutive_run_one:
  assumes "d \<in> S"
  shows "consecutive_run S d 1"
  unfolding consecutive_run_def
proof (intro conjI allI impI)
  fix k :: int
  assume "0 \<le> k \<and> k < 1"
  then have "k = 0" by simp
  with assms show "d - k \<in> S" by simp
qed simp

lemma consecutive_run_end: "consecutive_run S d n \<Longrightarrow> d \<in> S"
  by (auto simp: consecutive_run_def dest: spec [where x = 0])

lemma consecutive_run_step:
  assumes "consecutive_run P prev c" "d - prev = 1"
  shows "consecutive_run (insert d P) d (c + 1)"
  unfolding consecutive_run_def
proof (intro conjI allI impI)
  show "1 \<le> c + 1" using assms by (simp add: consecutive_run_def)
next
  fix k assume k: "0 \<le> k \<and> k < c + 1"
  show "d - k \<in> insert d P"
  proof (cases "k = 0")
    case True then show ?thesis by simp
  next
    case False
    with k have "0 \<le> k - 1 \<and> k - 1 < c" by auto
    with assms(1) have "prev - (k - 1) \<in> P" unfolding consecutive_run_def by blast
    moreover have "prev - (k - 1) = d - k" using assms(2) by simp
    ultimately show ?thesis by simp
  qed
qed

lemma consecutive_run_card:
  assumes "consecutive_run S d n" "finite S"
  shows "n \<le> int (card S)"
proof -
  have "(\<lambda>k. d - k) ` {0..<n} \<subseteq> S"
  proof
    fix x
    assume "x \<in> (\<lambda>k. d - k) ` {0..<n}"
    then show "x \<in> S"
    proof (rule imageE)
      fix k
      assume "x = d - k" "k \<in> {0..<n}"
      with assms(1) show "x \<in> S" unfolding consecutive_run_def by simp
    qed
  qed
  then have "card ((\<lambda>k. d - k) ` {0..<n}) \<le> card S" using assms(2) by (rule card_mono[rotated])
  moreover have "inj_on (\<lambda>k. d - k) {0..<n}" by (auto simp: inj_on_def)
  then have "card ((\<lambda>k. d - k) ` {0..<n}) = card {0..<n}" by (rule card_image)
  ultimately show ?thesis by simp
qed

lemma chain_loop_runs:
  assumes "chain_loop prev ds c l = (c', l')"
    and "consecutive_run P prev c" and "consecutive_run P e l" and "c \<le> l"
  shows "consecutive_run (P \<union> set ds) (last (prev # ds)) c'
         \<and> (\<exists>e'. consecutive_run (P \<union> set ds) e' l') \<and> c' \<le> l'"
  using assms
proof (induction ds arbitrary: prev c l P e)
  case Nil
  then show ?case by auto
next
  case (Cons d ds)
  let ?c = "if d - prev = 1 then c + 1 else 1"
  let ?l = "if ?c > l then ?c else l"
  let ?P = "insert d P"
  from Cons.prems(1) have loop: "chain_loop d ds ?c ?l = (c', l')" by (simp add: Let_def)
  have rc: "consecutive_run ?P d ?c"
    using Cons.prems(2) by (auto intro: consecutive_run_step consecutive_run_one)
  have "consecutive_run ?P e l"
    using Cons.prems(3) by (rule consecutive_run_mono) auto
  with rc have rl: "consecutive_run ?P (if ?c > l then d else e) ?l" by auto
  have le: "?c \<le> ?l" by auto
  from Cons.IH [OF loop rc rl le] show ?case by simp
qed

lemma chain_loop_max:
  assumes "chain_loop prev ds c l = (c', l')"
    and "sorted (prev # ds)" and "distinct (prev # ds)"
    and "\<forall>x\<in>P. x \<le> prev" and "prev \<in> P"
    and "run_through P prev c" and "longest_run P l"
  shows "run_through (P \<union> set ds) (last (prev # ds)) c' \<and> longest_run (P \<union> set ds) l'"
  using assms
proof (induction ds arbitrary: prev c l P)
  case Nil
  then show ?case by auto
next
  case (Cons d ds)
  let ?c = "if d - prev = 1 then c + 1 else 1"
  let ?l = "if ?c > l then ?c else l"
  let ?P = "insert d P"
  from Cons.prems(1) have loop: "chain_loop d ds ?c ?l = (c', l')" by (simp add: Let_def)
  from Cons.prems(2,3) have lt: "prev < d" by auto
  have below: "\<forall>x\<in>?P. x \<le> d" using Cons.prems(4) lt by auto
  have rc: "consecutive_run ?P d ?c"
    using Cons.prems(6) by (auto simp: run_through_def intro: consecutive_run_step consecutive_run_one)
  have maxc: "n \<le> ?c" if n: "consecutive_run ?P d n" for n
  proof (cases "d - prev = 1")
    case True
    show ?thesis
    proof (rule ccontr)
      assume "\<not> n \<le> ?c"
      with True have big: "c + 1 < n" by simp
      have "consecutive_run P prev (n - 1)"
        unfolding consecutive_run_def
      proof (intro conjI allI impI)
        show "1 \<le> n - 1" using big Cons.prems(6) by (auto simp: run_through_def consecutive_run_def)
      next
        fix k assume k: "0 \<le> k \<and> k < n - 1"
        then have "0 \<le> k + 1 \<and> k + 1 < n" by auto
        with n have "d - (k + 1) \<in> ?P" unfolding consecutive_run_def by blast
        moreover have "d - (k + 1) = prev - k" using True by simp
        moreover have "prev - k \<noteq> d" using lt k by auto
        ultimately show "prev - k \<in> P" by auto
      qed
      with Cons.prems(6) have "n - 1 \<le> c" by (auto simp: run_through_def)
      with big show False by simp
    qed
  next
    case False
    show ?thesis
    proof (rule ccontr)
      assume "\<not> n \<le> ?c"
      with False have "1 < n" by simp
      then have "(0::int) \<le> 1 \<and> 1 < n" by auto
      with n have "d - 1 \<in> ?P" unfolding consecutive_run_def by blast
      then have "d - 1 \<in> P" by auto
      with Cons.prems(4) have "d - 1 \<le> prev" by auto
      with lt False show False by auto
    qed
  qed
  have rt: "run_through ?P d ?c" using rc maxc by (auto simp: run_through_def)
  obtain e where e: "consecutive_run P e l" using Cons.prems(7) by (auto simp: longest_run_def)
  then have "consecutive_run ?P e l" by (rule consecutive_run_mono) auto
  with rc have ex: "\<exists>e'. consecutive_run ?P e' ?l" by auto
  have maxl: "n \<le> ?l" if n: "consecutive_run ?P x n" for x n
  proof (cases "x = d")
    case True
    with n have "n \<le> ?c" by (intro maxc) simp
    then show ?thesis by simp
  next
    case False
    from n have "x \<in> ?P" by (rule consecutive_run_end)
    with False have "x \<in> P" by auto
    with Cons.prems(4) lt have xlt: "x < d" by auto
    have "consecutive_run P x n"
      unfolding consecutive_run_def
    proof (intro conjI allI impI)
      show "1 \<le> n" using n by (simp add: consecutive_run_def)
    next
      fix k assume k: "0 \<le> k \<and> k < n"
      with n have "x - k \<in> ?P" unfolding consecutive_run_def by blast
      moreover have "x - k \<noteq> d" using xlt k by auto
      ultimately show "x - k \<in> P" by auto
    qed
    with Cons.prems(7) have "n \<le> l" by (auto simp: longest_run_def)
    then show ?thesis by auto
  qed
  have lr: "longest_run ?P ?l" using ex maxl unfolding longest_run_def by blast
  have s: "sorted (d # ds)" "distinct (d # ds)" using Cons.prems(2,3) by auto
  from Cons.IH [OF loop s below _ rt lr] show ?case by simp
qed

lemma map_err_length: "map_err f xs = Inr ys \<Longrightarrow> length ys = length xs"
  by (induction xs arbitrary: ys) (auto split: sum.splits)

lemma sorted_last_Max: "sorted xs \<Longrightarrow> xs \<noteq> [] \<Longrightarrow> last xs = Max (set xs)"
proof (induction xs)
  case Nil
  then show ?case by simp
next
  case (Cons x xs)
  show ?case
  proof (cases "xs = []")
    case True
    then show ?thesis by simp
  next
    case False
    with Cons have "last xs = Max (set xs)" by simp
    moreover have "x \<le> Max (set xs)"
    proof -
      have "hd xs \<in> set xs" using False by simp
      then have "x \<le> hd xs" "hd xs \<le> Max (set xs)" using Cons.prems by auto
      then show ?thesis by simp
    qed
    ultimately show ?thesis using False by (simp add: max_def)
  qed
qed

lemma calculate_streak_unfold:
  assumes "xs \<noteq> []" and "map_err to_date xs = Inr ds"
  shows "calculate_streak clk n (JArr xs) =
           (case streak_result (clk n) ds of Inl e \<Rightarrow> Inl e | Inr r \<Rightarrow> Inr (r, Suc n))"
proof -
  from assms have ne: "ds \<noteq> []" by (auto dest: map_err_length)
  then have "sort ds \<noteq> []" by (metis length_sort length_0_conv)
  then obtain d0 rest where s: "sort ds = d0 # rest" by (cases "sort ds") auto
  have "last (d0 # rest) = Max (set (sort ds))"
    unfolding s [symmetric] using \<open>sort ds \<noteq> []\<close> by (intro sorted_last_Max) auto
  then have l: "last (d0 # rest) = Max (set ds)" by simp
  obtain c l where cl: "chain_loop d0 rest 1 1 = (c, l)" by (cases "chain_loop d0 rest 1 1")
  show ?thesis
    using assms cl
    by (simp add: calculate_streak_def streak_result_def s l date_add_def Let_def
             del: last.simps)
qed

lemma chain_loop_start:
  assumes "ds \<noteq> []"
  obtains c l where "chain_loop (hd (sort ds)) (tl (sort ds)) 1 1 = (c, l)"
    and "consecutive_run (set ds) (Max (set ds)) c" and "\<exists>e. consecutive_run (set ds) e l"
    and "c \<le> l"
    and "distinct ds \<Longrightarrow> run_through (set ds) (Max (set ds)) c \<and> longest_run (set ds) l"
proof -
  from assms have "sort ds \<noteq> []" by (metis length_sort length_0_conv)
  then obtain d0 rest where s: "sort ds = d0 # rest" by (cases "sort ds") auto
  have srt: "sorted (d0 # rest)" unfolding s [symmetric] by simp
  have st: "set ds = {d0} \<union> set rest" using s by (metis set_sort list.simps(15) insert_is_Un)
  have lst: "last (d0 # rest) = Max (set ds)"
    using sorted_last_Max [OF srt] s by (metis set_sort list.distinct(1))
  obtain c l where cl: "chain_loop d0 rest 1 1 = (c, l)" by (cases "chain_loop d0 rest 1 1")
  have r1: "consecutive_run {d0} d0 1" by (rule consecutive_run_one) simp
  have "consecutive_run ({d0} \<union> set rest) (last (d0 # rest)) c
        \<and> (\<exists>e'. consecutive_run ({d0} \<union> set rest) e' l) \<and> c \<le> l"
    by (rule chain_loop_runs [OF cl r1 r1 order_refl])
  then have
    a: "consecutive_run (set ds) (Max (set ds)) c" "\<exists>e. consecutive_run (set ds) e l" "c \<le> l"
    unfolding st [symmetric] lst by blast+
  have b: "run_through (set ds) (Max (set ds)) c \<and> longest_run (set ds) l" if "distinct ds"
  proof -
    have dst: "distinct (d0 # rest)" unfolding s [symmetric] using that by simp
    have one: "n \<le> 1" if "consecutive_run {d0} e n" for e n
    proof (rule ccontr)
      assume "\<not> n \<le> 1"
      then have "(0::int) \<le> 0 \<and> 0 < n" "(0::int) \<le> 1 \<and> 1 < n" by auto
      with that have "e - 0 \<in> {d0}" "e - 1 \<in> {d0}" unfolding consecutive_run_def by blast+
      then show False by simp
    qed
    have rt: "run_through {d0} d0 1" using r1 one by (auto simp: run_through_def)
    have lr: "longest_run {d0} 1" using r1 one unfolding longest_run_def by blast
    have "run_through ({d0} \<union> set rest) (last (d0 # rest)) c
          \<and> longest_run ({d0} \<union> set rest) l"
      by (rule chain_loop_max [OF cl srt dst _ _ rt lr]) simp_all
    then show ?thesis unfolding st [symmetric] lst .
  qed
  show ?thesis using that [OF _ a] cl b s by simp
qed

lemma streak_result_ok:
  assumes "ds \<noteq> []" and "MINORD < today" and "today \<le> MAXORD"
  obtains c l where "chain_loop (hd (sort ds)) (tl (sort ds)) 1 1 = (c, l)"
    and "streak_result today ds
          = Inr (if Max (set ds) = today \<or> Max (set ds) = today - 1 then c else 0, l)"
proof -
  obtain c l where cl: "chain_loop (hd (sort ds)) (tl (sort ds)) 1 1 = (c, l)"
    by (cases "chain_loop (hd (sort ds)) (tl (sort ds)) 1 1")
  with assms(2,3) have "streak_result today ds
          = Inr (if Max (set ds) = today \<or> Max (set ds) = today - 1 then c else 0, l)"
    by (simp add: streak_result_def)
  with cl show ?thesis by (rule that)
qed

text \<open>
  Claim C4. For a non-empty set of valid dates (a list of strings that all parse, to
  distinct dates) and a today after 0001-01-01, \<open>calculate_streak\<close> returns, and its
  current streak is the length \<open>c\<close> of the longest run of consecutive days ending on the
  most recent date when that date is today or yesterday, and 0 otherwise.
\<close>

theorem calculate_streak_current:
  assumes "xs \<noteq> []" and "map_err to_date xs = Inr ds" and "distinct ds"
    and "MINORD < clk n" and "clk n \<le> MAXORD"
  shows "\<exists>c longest. run_through (set ds) (Max (set ds)) c
           \<and> calculate_streak clk n (JArr xs)
               = Inr ((if Max (set ds) = clk n \<or> Max (set ds) = clk n - 1 then c else 0,
                       longest), Suc n)"
proof -
  from assms(1,2) have ne: "ds \<noteq> []" by (auto dest: map_err_length)
  from streak_result_ok [OF ne assms(4,5)] obtain c l where
    cl: "chain_loop (hd (sort ds)) (tl (sort ds)) 1 1 = (c, l)" and
    sr: "streak_result (clk n) ds
          = Inr (if Max (set ds) = clk n \<or> Max (set ds) = clk n - 1 then c else 0, l)"
    by blast
  from chain_loop_start [OF ne] obtain c' l' where
    "chain_loop (hd (sort ds)) (tl (sort ds)) 1 1 = (c', l')"
    "distinct ds \<Longrightarrow> run_through (set ds) (Max (set ds)) c' \<and> longest_run (set ds) l'"
    by blast
  with cl assms(3) have "run_through (set ds) (Max (set ds)) c" by simp
  moreover have "calculate_streak clk n (JArr xs)
      = Inr ((if Max (set ds) = clk n \<or> Max (set ds) = clk n - 1 then c else 0, l), Suc n)"
    by (simp add: calculate_streak_unfold [OF assms(1,2)] sr)
  ultimately show ?thesis by blast
qed

theorem calculate_streak_current_witness:
  "map_err to_date january_dates = Inr [738887, 738886, 738888]
   \<and> (\<exists>c longest. run_through {738886, 738887, 738888} 738888 c
         \<and> calculate_streak (\<lambda>i. 738889) 0 (JArr january_dates) = Inr ((c, longest), 1))
   \<and> (\<exists>c longest. run_through {738886, 738887, 738888} 738888 c
         \<and> calculate_streak (\<lambda>i. 738890) 0 (JArr january_dates) = Inr ((0, longest), 1))
   \<and> calculate_streak (\<lambda>i. 738888) 0 (JArr january_dates) = Inr ((3, 3), 1)"
proof -
  have e: "calculate_streak (\<lambda>i. 738888) 0 (JArr january_dates) = Inr ((3, 3), 1)"
    unfolding january_dates_def by code_simp
  have p: "map_err to_date january_dates = Inr [738887, 738886, 738888]"
    unfolding january_dates_def by code_simp
  have ne: "january_dates \<noteq> []" by (simp add: january_dates_def)
  have d: "distinct [738887, 738886, 738888 :: int]" by simp
  have m: "Max (set [738887, 738886, 738888 :: int]) = 738888" by simp
  have s: "set [738887, 738886, 738888 :: int] = {738886, 738887, 738888}" by auto
  show ?thesis
    using p e calculate_streak_current [OF ne p d, of "\<lambda>i. 738889" 0]
      calculate_streak_current [OF ne p d, of "\<lambda>i. 738890" 0]
    unfolding m s by (simp add: MINORD_def MAXORD_def)
qed

text \<open>
  Claim C5. On the empty list \<open>calculate_streak\<close> returns \<open>(0, 0)\<close>. On a non-empty set of
  valid dates it returns, and its longest streak is the greatest number of consecutive
  calendar days that are all in the set.
\<close>

theorem calculate_streak_longest:
  "calculate_streak clk n (JArr []) = Inr ((0, 0), n)
   \<and> (xs \<noteq> [] \<and> map_err to_date xs = Inr ds \<and> distinct ds \<and> MINORD < clk n \<and> clk n \<le> MAXORD
        \<longrightarrow> (\<exists>current longest.
               calculate_streak clk n (JArr xs) = Inr ((current, longest), Suc n)
               \<and> longest_run (set ds) longest))"
proof (intro conjI impI)
  show "calculate_streak clk n (JArr []) = Inr ((0, 0), n)"
    by (simp add: calculate_streak_def)
next
  assume a: "xs \<noteq> [] \<and> map_err to_date xs = Inr ds \<and> distinct ds \<and> MINORD < clk n
             \<and> clk n \<le> MAXORD"
  then have ne: "ds \<noteq> []" by (auto dest: map_err_length)
  from a streak_result_ok [OF ne, of "clk n"] obtain c l where
    cl: "chain_loop (hd (sort ds)) (tl (sort ds)) 1 1 = (c, l)" and
    sr: "streak_result (clk n) ds
          = Inr (if Max (set ds) = clk n \<or> Max (set ds) = clk n - 1 then c else 0, l)"
    by blast
  from chain_loop_start [OF ne] obtain c' l' where
    "chain_loop (hd (sort ds)) (tl (sort ds)) 1 1 = (c', l')"
    "distinct ds \<Longrightarrow> run_through (set ds) (Max (set ds)) c' \<and> longest_run (set ds) l'"
    by blast
  with cl a have "longest_run (set ds) l" by simp
  moreover have "calculate_streak clk n (JArr xs)
      = Inr ((if Max (set ds) = clk n \<or> Max (set ds) = clk n - 1 then c else 0, l), Suc n)"
    using a by (simp add: calculate_streak_unfold sr)
  ultimately show "\<exists>current longest.
      calculate_streak clk n (JArr xs) = Inr ((current, longest), Suc n)
      \<and> longest_run (set ds) longest" by blast
qed

theorem calculate_streak_longest_witness:
  "map_err to_date january_dates = Inr [738887, 738886, 738888]
   \<and> (\<exists>current longest.
         calculate_streak (\<lambda>i. 738890) 0 (JArr january_dates) = Inr ((current, longest), 1)
         \<and> longest_run {738886, 738887, 738888} longest)"
proof -
  have p: "map_err to_date january_dates = Inr [738887, 738886, 738888]"
    unfolding january_dates_def by code_simp
  have ne: "january_dates \<noteq> []" by (simp add: january_dates_def)
  have s: "set [738887, 738886, 738888 :: int] = {738886, 738887, 738888}" by auto
  show ?thesis
    using p ne calculate_streak_longest [of "\<lambda>i. 738890" 0 january_dates "[738887, 738886, 738888]"]
    unfolding s by (simp add: MINORD_def MAXORD_def)
qed


section \<open>Floating point in the progress bar\<close>

lemma round_even_cases: "round_even y = \<lfloor>y\<rfloor> \<or> (round_even y = \<lfloor>y\<rfloor> + 1 \<and> 1 / 2 \<le> y - of_int \<lfloor>y\<rfloor>)"
  by (auto simp: round_even_def Let_def)

lemma round_even_le: 
  assumes "y \<le> of_int N" shows "round_even y \<le> N"
proof -
  have f: "\<lfloor>y\<rfloor> \<le> N" using assms by (simp add: floor_le_iff) 
  from round_even_cases [of y] show ?thesis
  proof
    assume "round_even y = \<lfloor>y\<rfloor>" with f show ?thesis by simp
  next
    assume a: "round_even y = \<lfloor>y\<rfloor> + 1 \<and> 1 / 2 \<le> y - of_int \<lfloor>y\<rfloor>"
    then have "of_int \<lfloor>y\<rfloor> < y" by simp
    with assms have "(of_int \<lfloor>y\<rfloor> :: rat) < of_int N" by simp
    then have "\<lfloor>y\<rfloor> < N" by simp
    with a show ?thesis by simp
  qed
qed

lemma round_even_ge:
  assumes "of_int N \<le> y" shows "N \<le> round_even y"
proof -
  have "N \<le> \<lfloor>y\<rfloor>" using assms by (simp add: le_floor_iff)
  with round_even_cases [of y] show ?thesis by auto
qed

lemma round_even_of_int [simp]: "round_even (of_int k) = k"
  by (simp add: round_even_def)

lemma round_even_err: "\<bar>of_int (round_even y) - y\<bar> \<le> 1 / 2"
proof -
  have "of_int \<lfloor>y\<rfloor> \<le> y" "y < of_int \<lfloor>y\<rfloor> + 1" by linarith+
  then show ?thesis by (auto simp: round_even_def Let_def abs_le_iff)
qed

lemma ilog2_bounds:
  assumes "0 < x"
  shows "2 powi (ilog2 x) \<le> x \<and> x < 2 powi (ilog2 x + 1)"
proof -
  obtain a b where q: "quotient_of x = (a, b)" by (cases "quotient_of x")
  then have x: "x = of_int a / of_int b" and b: "0 < b"
    by (auto dest: quotient_of_div quotient_of_denom_pos)
  with assms have a: "0 < a" by (simp add: zero_less_divide_iff)
  let ?la = "bitlen a" and ?lb = "bitlen b"
  have la: "1 \<le> ?la" and lb: "1 \<le> ?lb" using a b by (auto simp: bitlen_alt_def)
  have pw: "(2::rat) powi k = 2 ^ nat k" if "0 \<le> k" for k
    using that by (simp add: power_int_def)
  have cast: "(of_int ((2::int) ^ k) :: rat) = 2 ^ k" for k by simp
  have "(2::int) ^ nat (?la - 1) \<le> a" "a < (2::int) ^ nat ?la"
    using bitlen_bounds [OF a] by simp_all
  then have "(of_int ((2::int) ^ nat (?la - 1)) :: rat) \<le> of_int a"
    "(of_int a :: rat) < of_int ((2::int) ^ nat ?la)"
    by (simp_all only: of_int_le_iff of_int_less_iff)
  then have a1: "(2::rat) powi (?la - 1) \<le> of_int a" and a2: "(of_int a :: rat) < 2 powi ?la"
    using la by (simp_all only: cast pw)
  have "(2::int) ^ nat (?lb - 1) \<le> b" "b < (2::int) ^ nat ?lb"
    using bitlen_bounds [OF b] by simp_all
  then have "(of_int ((2::int) ^ nat (?lb - 1)) :: rat) \<le> of_int b"
    "(of_int b :: rat) < of_int ((2::int) ^ nat ?lb)"
    by (simp_all only: of_int_le_iff of_int_less_iff)
  then have b1: "(2::rat) powi (?lb - 1) \<le> of_int b" and b2: "(of_int b :: rat) < 2 powi ?lb"
    using lb by (simp_all only: cast pw)
  have bp: "(0::rat) < of_int b" using b by simp
  have lo: "(2::rat) powi (?la - ?lb - 1) \<le> x"
  proof -
    have e1: "?la - ?lb - 1 = (?la - 1) - ?lb" by simp
    have "(2::rat) powi (?la - ?lb - 1) = 2 powi (?la - 1) / 2 powi ?lb"
      unfolding e1 by (rule power_int_diff) simp
    also have "\<dots> \<le> of_int a / 2 powi ?lb" using a1 by (simp add: divide_right_mono)
    also have "\<dots> \<le> of_int a / of_int b" using b2 bp a by (intro divide_left_mono) (auto intro: mult_pos_pos)
    finally show ?thesis by (simp add: x)
  qed
  have hi: "x < (2::rat) powi (?la - ?lb + 1)"
  proof -
    have "x = of_int a / of_int b" by (rule x)
    also have "\<dots> < 2 powi ?la / of_int b" using a2 bp by (simp add: divide_strict_right_mono)
    also have "\<dots> \<le> 2 powi ?la / 2 powi (?lb - 1)" using b1 bp by (intro divide_left_mono) (auto intro: mult_pos_pos)
    also have "\<dots> = 2 powi (?la - ?lb + 1)"
    proof -
      have e2: "?la - ?lb + 1 = ?la - (?lb - 1)" by simp
      show ?thesis unfolding e2 by (rule power_int_diff [symmetric]) simp
    qed
    finally show ?thesis .
  qed
  show ?thesis
  proof (cases "(2::rat) powi (?la - ?lb) \<le> x")
    case True
    then have "ilog2 x = ?la - ?lb" by (simp add: ilog2_def q Let_def)
    with True hi show ?thesis by simp
  next
    case False
    then have "ilog2 x = ?la - ?lb - 1" by (simp add: ilog2_def q Let_def)
    with False lo show ?thesis by simp
  qed
qed

lemma fl_round_eq:
  assumes "x \<noteq> 0"
  shows "fl_round x = of_int (round_even (x / 2 powi (max (ilog2 \<bar>x\<bar>) (- 1022) - 52)))
                       * 2 powi (max (ilog2 \<bar>x\<bar>) (- 1022) - 52)"
  using assms by (simp add: fl_round_def Let_def)

lemma ilog2_less:
  assumes "0 < x" and "x < 2 ^ n"
  shows "ilog2 x < int n"
proof -
  have "(2::rat) powi (ilog2 x) \<le> x" using ilog2_bounds [OF assms(1)] by simp
  also have "x < 2 powi (int n)" using assms(2) by simp
  finally show ?thesis by (rule power_int_le_imp_less_exp [rotated]) simp_all
qed

lemma ilog2_nonneg:
  assumes "1 \<le> x"
  shows "0 \<le> ilog2 x"
proof (rule ccontr)
  assume "\<not> 0 \<le> ilog2 x"
  then have "ilog2 x + 1 \<le> 0" by simp
  then have "(2::rat) powi (ilog2 x + 1) \<le> 2 powi 0"
    by (intro power_int_increasing) simp_all
  moreover have "x < 2 powi (ilog2 x + 1)" using ilog2_bounds [of x] assms by simp
  ultimately show False using assms by simp
qed

text \<open>Below \<open>2 ^ 53\<close> the unit in the last place is \<open>1 / 2 ^ k\<close> for some \<open>k\<close>.\<close>

lemma ulp_small:
  assumes "0 < x" and "x < 2 ^ 53"
  obtains k :: nat where "2 powi (max (ilog2 x) (- 1022) - 52) = (1 :: rat) / 2 ^ k"
proof -
  let ?e = "max (ilog2 x) (- 1022)"
  have "ilog2 x < 53" using ilog2_less [OF assms] by simp
  then have le: "?e - 52 \<le> 0" by simp
  have "(2::rat) powi (?e - 52) = 1 / 2 ^ nat (52 - ?e)"
  proof -
    have "(2::rat) powi (?e - 52) = 2 powi (- (52 - ?e))" by simp
    also have "\<dots> = 1 / 2 powi (52 - ?e)" by (rule power_int_minus_divide)
    also have "2 powi (52 - ?e) = (2::rat) ^ nat (52 - ?e)"
      using le by (simp add: power_int_def)
    finally show ?thesis .
  qed
  then show ?thesis by (rule that)
qed

lemma fl_round_le_int:
  assumes "0 < x" and "x \<le> of_int b" and "b < 2 ^ 53"
  shows "fl_round x \<le> of_int b"
proof -
  have "x < 2 ^ 53"
  proof -
    have "(of_int b :: rat) < of_int (2 ^ 53)" using assms(3) by (simp only: of_int_less_iff)
    with assms(2) show ?thesis by simp
  qed
  from ulp_small [OF assms(1) this] obtain k :: nat where
    u: "2 powi (max (ilog2 x) (- 1022) - 52) = (1 :: rat) / 2 ^ k" by blast
  have "x * 2 ^ k \<le> of_int b * 2 ^ k" using assms(2) by simp
  also have "\<dots> = of_int (b * 2 ^ k)" by simp
  finally have "round_even (x * 2 ^ k) \<le> b * 2 ^ k" by (rule round_even_le)
  then have "(of_int (round_even (x * 2 ^ k)) :: rat) \<le> of_int (b * 2 ^ k)"
    by (simp only: of_int_le_iff)
  then have "(of_int (round_even (x * 2 ^ k)) :: rat) / 2 ^ k \<le> of_int b"
    by (simp add: divide_le_eq)
  moreover have "fl_round x = of_int (round_even (x * 2 ^ k)) / 2 ^ k"
    using assms(1) by (simp add: fl_round_eq u)
  ultimately show ?thesis by simp
qed

lemma fl_round_nonneg:
  assumes "0 \<le> x"
  shows "0 \<le> fl_round x"
proof (cases "x = 0")
  case True
  then show ?thesis by (simp add: fl_round_def)
next
  case False
  let ?u = "(2::rat) powi (max (ilog2 \<bar>x\<bar>) (- 1022) - 52)"
  have u: "0 < ?u" by simp
  then have "of_int 0 \<le> x / ?u" using assms by simp
  then have "0 \<le> round_even (x / ?u)" by (rule round_even_ge)
  then have "(0::rat) \<le> of_int (round_even (x / ?u)) * ?u" using u by simp
  then show ?thesis using False by (simp add: fl_round_eq)
qed

lemma fl_round_pos:
  assumes "1 \<le> x"
  shows "0 < fl_round x"
proof -
  have x: "0 < x" "\<bar>x\<bar> = x" using assms by simp_all
  let ?e = "ilog2 x"
  have e: "max ?e (- 1022) = ?e" using ilog2_nonneg [OF assms] by simp
  let ?u = "(2::rat) powi (?e - 52)"
  have u: "0 < ?u" by simp
  have "?u \<le> x"
  proof -
    have "?u \<le> 2 powi ?e" by (intro power_int_increasing) simp_all
    also have "\<dots> \<le> x" using ilog2_bounds [OF x(1)] by simp
    finally show ?thesis .
  qed
  then have "of_int 1 \<le> x / ?u" using u by (simp add: le_divide_eq)
  then have "1 \<le> round_even (x / ?u)" by (rule round_even_ge)
  then have "(0::rat) < of_int (round_even (x / ?u)) * ?u" using u by simp
  then show ?thesis using x by (simp add: fl_round_eq e)
qed

lemma fl_round_of_int:
  assumes "\<bar>i\<bar> < 2 ^ 53"
  shows "fl_round (of_int i) = of_int i"
proof (cases "i = 0")
  case True
  then show ?thesis by (simp add: fl_round_def)
next
  case False
  have pos: "(0::rat) < \<bar>of_int i\<bar>" using False by simp
  have "(of_int \<bar>i\<bar> :: rat) < of_int (2 ^ 53)" using assms by (simp only: of_int_less_iff)
  then have "\<bar>of_int i :: rat\<bar> < 2 ^ 53" by simp
  from ulp_small [OF pos this] obtain k :: nat where
    u: "2 powi (max (ilog2 \<bar>of_int i\<bar>) (- 1022) - 52) = (1 :: rat) / 2 ^ k" by blast
  have "(of_int i :: rat) * 2 ^ k = of_int (i * 2 ^ k)" by simp
  then have "round_even ((of_int i :: rat) * 2 ^ k) = i * 2 ^ k"
    by (simp only: round_even_of_int)
  then show ?thesis using False by (simp add: fl_round_eq u)
qed

lemma to_float_small:
  assumes "\<bar>i\<bar> < 2 ^ 53"
  shows "to_float i = Inr (of_int i)"
proof -
  have "(of_int \<bar>i\<bar> :: rat) < of_int (2 ^ 53)" using assms by (simp only: of_int_less_iff)
  then have "\<bar>of_int i :: rat\<bar> < 2 ^ 53" by simp
  also have "(2::rat) ^ 53 \<le> 2 ^ 1024" by (rule power_increasing) simp_all
  finally have "\<not> 2 ^ 1024 \<le> \<bar>of_int i :: rat\<bar>" by simp
  then show ?thesis by (simp add: to_float_def fl_round_of_int [OF assms] Let_def)
qed

lemma to_float_Inr: "to_float i = Inr r \<Longrightarrow> r = fl_round (of_int i)"
  by (simp add: to_float_def Let_def split: if_splits)

lemma bar_ratio_range:
  assumes "bar_ratio current longest = Inr r" and "0 \<le> current" and "1 \<le> longest"
  shows "0 \<le> r \<and> r \<le> 1"
proof -
  from assms(1,3) obtain fl fc where
    fl: "to_float longest = Inr fl" and fc: "to_float current = Inr fc"
    and r: "r = min 1 (fl_round (fc / fl))"
    by (auto simp: bar_ratio_def split: sum.splits if_splits)
  have "0 < fl" using to_float_Inr [OF fl] assms(3) by (simp add: fl_round_pos)
  moreover have "0 \<le> fc" using to_float_Inr [OF fc] assms(2) by (simp add: fl_round_nonneg)
  ultimately have "0 \<le> fl_round (fc / fl)" by (intro fl_round_nonneg) simp
  with r show ?thesis by simp
qed

lemma bar_filled_range:
  assumes "bar_filled current longest 40 = Inr f" and "0 \<le> current" and "1 \<le> longest"
  shows "0 \<le> f \<and> f \<le> 40"
proof (cases "0 < current")
  case False
  with assms(1) show ?thesis by (auto simp: bar_filled_def split: sum.splits)
next
  case True
  have w: "to_float 40 = Inr 40" using to_float_small [of 40] by simp
  from assms(1) True obtain r where
    r: "bar_ratio current longest = Inr r" and f: "f = py_trunc (fl_round (40 * r))"
    by (auto simp: bar_filled_def w split: sum.splits)
  from bar_ratio_range [OF r assms(2,3)] have rr: "0 \<le> r" "r \<le> 1" by simp_all
  have lo: "0 \<le> fl_round (40 * r)" using rr by (intro fl_round_nonneg) simp
  have hi: "fl_round (40 * r) \<le> 40"
  proof (cases "r = 0")
    case True
    then show ?thesis by (simp add: fl_round_def)
  next
    case False
    with rr have "0 < 40 * r" "40 * r \<le> of_int 40" by simp_all
    then have "fl_round (40 * r) \<le> of_int 40" by (rule fl_round_le_int) simp
    then show ?thesis by simp
  qed
  from lo have "f = \<lfloor>fl_round (40 * r)\<rfloor>" by (simp add: f py_trunc_def)
  moreover have "0 \<le> \<lfloor>fl_round (40 * r)\<rfloor>" using lo by simp
  moreover have "\<lfloor>fl_round (40 * r)\<rfloor> \<le> 40" using hi by (simp add: floor_le_iff)
  ultimately show ?thesis by simp
qed

lemma bar_filled_total:
  assumes "\<bar>current\<bar> < 2 ^ 53" and "1 \<le> longest" and "longest < 2 ^ 53"
  shows "\<exists>f. bar_filled current longest 40 = Inr f"
proof -
  have "to_float 40 = Inr 40" using to_float_small [of 40] by simp
  moreover have "to_float longest = Inr (of_int longest)"
    using assms(2,3) by (intro to_float_small) simp
  moreover have "to_float current = Inr (of_int current)"
    using assms(1) by (rule to_float_small)
  ultimately show ?thesis using assms(2) by (simp add: bar_filled_def bar_ratio_def)
qed

text \<open>
  Claim C10. Whatever \<open>calculate_streak\<close> returns on a non-empty list of valid dates, for
  any today, satisfies \<open>0 \<le> current \<le> longest\<close> and \<open>1 \<le> longest \<le>\<close> the number of distinct
  dates. Fed to the progress bar, \<open>current / longest\<close> is at most 1, as is the ratio the
  bar computes in floating point, and the number of filled cells lies between 0 and the
  width 40; the bar does compute it when the list has fewer than \<open>2 ^ 53\<close> entries.
\<close>

theorem calculate_streak_bounds:
  assumes "xs \<noteq> []" and "map_err to_date xs = Inr ds"
    and "calculate_streak clk n (JArr xs) = Inr ((current, longest), n')"
  shows "0 \<le> current \<and> current \<le> longest \<and> 1 \<le> longest \<and> longest \<le> int (card (set ds))
         \<and> (of_int current / of_int longest :: rat) \<le> 1
         \<and> (\<forall>r. bar_ratio current longest = Inr r \<longrightarrow> r \<le> 1)
         \<and> (\<forall>f. bar_filled current longest 40 = Inr f \<longrightarrow> 0 \<le> f \<and> f \<le> 40)
         \<and> (length xs < 2 ^ 53 \<longrightarrow> (\<exists>f. bar_filled current longest 40 = Inr f))"
proof -
  from assms(1,2) have ne: "ds \<noteq> []" by (auto dest: map_err_length)
  from chain_loop_start [OF ne] obtain c l where
    cl: "chain_loop (hd (sort ds)) (tl (sort ds)) 1 1 = (c, l)"
    and rc: "consecutive_run (set ds) (Max (set ds)) c"
    and rl: "\<exists>e. consecutive_run (set ds) e l" and le: "c \<le> l"
    by blast
  from assms(3) have "streak_result (clk n) ds = Inr (current, longest)"
    by (simp add: calculate_streak_unfold [OF assms(1,2)] split: sum.splits)
  then have res: "longest = l" "current = c \<or> current = 0"
    by (auto simp: streak_result_def cl split: if_splits)
  have c1: "1 \<le> c" using rc by (simp add: consecutive_run_def)
  from rl obtain e where "consecutive_run (set ds) e l" by blast
  then have lcard: "l \<le> int (card (set ds))" by (rule consecutive_run_card) simp
  have b: "0 \<le> current" "current \<le> longest" "1 \<le> longest" "longest \<le> int (card (set ds))"
    using res c1 le lcard by auto
  have len: "int (card (set ds)) \<le> int (length xs)"
    using card_length [of ds] map_err_length [OF assms(2)] by simp
  have q: "(of_int current / of_int longest :: rat) \<le> 1"
    using b by (simp add: divide_le_eq)
  have tot: "\<exists>f. bar_filled current longest 40 = Inr f" if "length xs < 2 ^ 53"
  proof -
    have "int (length xs) < int (2 ^ 53)" using that by (simp only: of_nat_less_iff)
    then have "int (length xs) < 2 ^ 53" by simp
    with b len have "\<bar>current\<bar> < 2 ^ 53" "longest < 2 ^ 53" by simp_all
    then show ?thesis using b by (intro bar_filled_total) simp_all
  qed
  show ?thesis
    using b q tot bar_ratio_range [of current longest] bar_filled_range [of current longest]
    by blast
qed

theorem calculate_streak_bounds_witness:
  "calculate_streak (\<lambda>i. 738888) 0 (JArr january_dates) = Inr ((3, 3), 1)
   \<and> (3::int) \<le> int (card (set [738887, 738886, 738888 :: int]))
   \<and> (\<exists>f. bar_filled 3 3 40 = Inr f \<and> 0 \<le> f \<and> f \<le> 40)"
proof -
  have e: "calculate_streak (\<lambda>i. 738888) 0 (JArr january_dates) = Inr ((3, 3), 1)"
    unfolding january_dates_def by code_simp
  have p: "map_err to_date january_dates = Inr [738887, 738886, 738888]"
    unfolding january_dates_def by code_simp
  have ne: "january_dates \<noteq> []" "length january_dates < 2 ^ 53"
    by (simp_all add: january_dates_def)
  show ?thesis
    using e ne(2) calculate_streak_bounds [OF ne(1) p e] by blast
qed

text \<open>Integers below \<open>2 ^ 53\<close> convert exactly; this is also how they are evaluated.\<close>

lemma to_float_code [code]:
  "to_float i =
     (if \<bar>i\<bar> < 2 ^ 53 then Inr (of_int i)
      else let r = fl_round (of_int i) in if \<bar>r\<bar> \<ge> 2 ^ 1024 then Inl OverflowError else Inr r)"
  by (simp add: to_float_small) (simp add: to_float_def)

section \<open>Adding today to the record\<close>

lemma map_of_dict_set: "map_of (dict_set kvs k v) = (map_of kvs)(k \<mapsto> v)"
  by (induction kvs) (auto simp: fun_eq_iff)

lemma dict_get_dict_set:
  "dict_get (dict_set kvs k v) k' d = (if k' = k then v else dict_get kvs k' d)"
  by (simp add: dict_get_def map_of_dict_set)

lemma dict_set_same: "map_of kvs k = Some v \<Longrightarrow> dict_set kvs k v = kvs"
  by (induction kvs) (auto split: if_splits)

lemma key_neq: "lit ''dates'' \<noteq> lit ''longest_streak''" "lit ''longest_streak'' \<noteq> lit ''dates''"
  by (simp_all add: lit_def)

lemma strftime_nonempty: "strftime d \<noteq> []"
  by (simp add: strftime_def lit_def split: prod.splits)

lemma map_err_all: "map_err f xs = Inr ys \<Longrightarrow> x \<in> set xs \<Longrightarrow> \<exists>y. f x = Inr y"
  by (induction xs arbitrary: ys) (auto split: sum.splits)

lemma calculate_streak_parses:
  assumes "calculate_streak clk k (JArr xs) = Inr r" and "x \<in> set xs"
  shows "\<exists>d. to_date x = Inr d"
proof -
  from assms have "xs \<noteq> []" by auto
  with assms(1) obtain ds where "map_err to_date xs = Inr ds"
    by (auto simp: calculate_streak_def split: sum.splits)
  then show ?thesis using assms(2) by (rule map_err_all)
qed

lemma is_str_map: "list_all is_str xs \<Longrightarrow> map JStr (map the_str xs) = xs"
proof (induction xs)
  case Nil then show ?case by simp
next
  case (Cons x xs) then show ?case by (cases x) auto
qed

text \<open>What \<open>normalize_dates\<close> gave when \<open>calculate_streak\<close> accepted it.\<close>

lemma normalize_then_calculate:
  assumes "normalize_dates v = Inr dates" and "calculate_streak clk k (JArr dates) = Inr r"
  obtains xs where "py_iter v = Inr xs" and "list_all is_str xs"
    and "dates = map JStr (sort (remdups (map the_str xs)))"
proof -
  from assms(1) obtain xs where it: "py_iter v = Inr xs"
    by (auto simp: normalize_dates_def split: sum.splits)
  show ?thesis
  proof (cases "list_all is_str xs")
    case True
    with assms(1) it have "dates = map JStr (sort (remdups (map the_str xs)))"
      by (auto simp: normalize_dates_def split: if_splits)
    with it True show ?thesis by (rule that)
  next
    case False
    with assms(1) it have "dates = [JNull]"
      by (auto simp: normalize_dates_def split: if_splits)
    with assms(2) have False by (simp add: calculate_streak_def)
    then show ?thesis ..
  qed
qed

lemma add_today_ok:
  assumes "add_today_if_missing clk n data = Inr ((data', current, m), n')"
  obtains kvs ds longest where "data = JObj kvs"
    and "sorted ds" and "distinct ds" and "strftime (clk n) \<in> set ds"
    and "calculate_streak clk (Suc n) (JArr (map JStr ds)) = Inr ((current, longest), n')"
    and "py_max (dict_get kvs (lit ''longest_streak'') (JInt 0)) longest = Inr m"
    and "data' = JObj (dict_set (dict_set kvs (lit ''dates'') (JArr (map JStr ds)))
                         (lit ''longest_streak'') (JInt m))"
proof -
  let ?t = "strftime (clk n)"
  from assms obtain kvs where data: "data = JObj kvs"
    by (cases data) (auto simp: add_today_if_missing_def today_str_def)
  let ?d0 = "dict_get kvs (lit ''dates'') (JArr [])"
  from assms data obtain present dates1 dates longest where
    pin: "py_in ?t ?d0 = Inr present"
    and app: "(if \<not> present then py_append ?d0 (JStr ?t) else Inr ?d0) = Inr dates1"
    and norm: "normalize_dates dates1 = Inr dates"
    and calc: "calculate_streak clk (Suc n) (JArr dates) = Inr ((current, longest), n')"
    and mx: "py_max (dict_get (dict_set kvs (lit ''dates'') (JArr dates)) (lit ''longest_streak'')
               (JInt 0)) longest = Inr m"
    and d': "data' = JObj (dict_set (dict_set kvs (lit ''dates'') (JArr dates))
                         (lit ''longest_streak'') (JInt m))"
    by (auto simp: add_today_if_missing_def today_str_def Let_def split: sum.splits)
  from normalize_then_calculate [OF norm calc] obtain xs where
    it: "py_iter dates1 = Inr xs" and str: "list_all is_str xs"
    and dates: "dates = map JStr (sort (remdups (map the_str xs)))" by blast
  let ?ds = "sort (remdups (map the_str xs))"
  have mem: "JStr ?t \<in> set xs"
  proof (cases ?d0)
    case (JArr ys)
    from pin app it show ?thesis unfolding JArr by (auto split: if_splits)
  next
    case (JObj kv)
    from pin app it show ?thesis unfolding JObj by (force split: if_splits)
  next
    case (JStr s)
    from pin app it have sub: "substring ?t s" and xs: "xs = map (\<lambda>c. JStr [c]) s"
      unfolding JStr by (auto split: if_splits)
    show ?thesis
    proof (cases s)
      case Nil
      with sub show ?thesis by (simp add: strftime_nonempty)
    next
      case (Cons c cs)
      then have "JStr [c] \<in> set xs" by (simp add: xs)
      then have "[c] \<in> set ?ds" by force
      then have "JStr [c] \<in> set dates" by (simp add: dates)
      from calculate_streak_parses [OF calc this] show ?thesis by simp
    qed
  next
    case JNull
    from pin show ?thesis unfolding JNull by simp
  next
    case (JBool b)
    from pin show ?thesis unfolding JBool by simp
  next
    case (JInt i)
    from pin show ?thesis unfolding JInt by simp
  qed
  then have "?t \<in> set ?ds" by force
  moreover have "sorted ?ds" "distinct ?ds" by simp_all
  moreover note calc [unfolded dates]
  moreover have "py_max (dict_get kvs (lit ''longest_streak'') (JInt 0)) longest = Inr m"
    using mx by (simp add: dict_get_dict_set key_neq)
  moreover note d' [unfolded dates]
  ultimately show ?thesis using data by (intro that [of kvs ?ds longest]) 
qed




section \<open>A whole run\<close>

lemma write_if_changed_data: "data_file (fst (write_if_changed new_md fs)) = data_file fs"
  by (simp add: write_if_changed_def Let_def)

lemma main_ok:
  assumes "main clk fs = (fs', Inr out)"
  obtains data current longest n2 new_md n3 where
    "add_today_if_missing clk (snd (load_data clk 0 fs)) (fst (load_data clk 0 fs))
       = Inr ((data, current, longest), n2)"
    and "render_streak_md clk n2 data current longest = Inr (new_md, n3)"
    and "fs' = fst (write_if_changed new_md (save_data data fs))"
    and "changed out = snd (write_if_changed new_md (save_data data fs))"
    and "\<exists>dates total_days. py_get data (lit ''dates'') (JArr []) = Inr dates
           \<and> py_len dates = Inr total_days
           \<and> printed out = [status_line (changed out), summary_line current longest total_days]"
proof -
  obtain data0 n1 where l: "load_data clk 0 fs = (data0, n1)" by (cases "load_data clk 0 fs")
  show ?thesis
  proof (cases "add_today_if_missing clk n1 data0")
    case (Inl e)
    with assms l show ?thesis by (simp add: main_def)
  next
    case (Inr x)
    then obtain data current longest n2 where
      a: "add_today_if_missing clk n1 data0 = Inr ((data, current, longest), n2)"
      by (cases x) auto
    show ?thesis
    proof (cases "render_streak_md clk n2 data current longest")
      case (Inl e)
      with assms l a show ?thesis by (simp add: main_def)
    next
      case (Inr y)
      then obtain new_md n3 where
        r: "render_streak_md clk n2 data current longest = Inr (new_md, n3)"
        by (cases y) auto
      obtain fs2 ch where w: "write_if_changed new_md (save_data data fs) = (fs2, ch)"
        by (cases "write_if_changed new_md (save_data data fs)")
      show ?thesis
      proof (cases "py_get data (lit ''dates'') (JArr [])")
        case (Inl e)
        with assms l a r w show ?thesis by (simp add: main_def)
      next
        case g: (Inr dates)
        show ?thesis
        proof (cases "py_len dates")
          case (Inl e)
          with assms l a r w g show ?thesis by (simp add: main_def)
        next
          case n: (Inr total_days)
          from assms l a r w g n have
            "fs' = fs2" "out = \<lparr>changed = ch,
               printed = [status_line ch, summary_line current longest total_days]\<rparr>"
            by (simp_all add: main_def)
          with l a r w g n show ?thesis
            by (intro that [of data current longest n2 new_md n3]) simp_all
        qed
      qed
    qed
  qed
qed

text \<open>
  Claim C7. A run that ends normally has written the data file, whether or not the report
  was rewritten, and the stored \<open>dates\<close> are strings in ascending order, without
  duplicates, among them the date string of the clock reading that
  \<open>add_today_if_missing\<close> took as today.
\<close>

theorem main_writes_data:
  assumes "main clk fs = (fs', Inr out)"
  shows "\<exists>kvs ds. data_file fs' = Some (Doc (JObj kvs))
           \<and> dict_get kvs (lit ''dates'') JNull = JArr (map JStr ds)
           \<and> sorted ds \<and> distinct ds
           \<and> strftime (clk (snd (load_data clk 0 fs))) \<in> set ds"
proof -
  from assms obtain data current longest n2 new_md where
    a: "add_today_if_missing clk (snd (load_data clk 0 fs)) (fst (load_data clk 0 fs))
       = Inr ((data, current, longest), n2)"
    and fs': "fs' = fst (write_if_changed new_md (save_data data fs))"
    by (rule main_ok)
  from a obtain kvs ds m where
    ds: "sorted ds" "distinct ds" "strftime (clk (snd (load_data clk 0 fs))) \<in> set ds"
    and d: "data = JObj (dict_set (dict_set kvs (lit ''dates'') (JArr (map JStr ds)))
                         (lit ''longest_streak'') (JInt longest))"
    by (rule add_today_ok)
  let ?k = "dict_set (dict_set kvs (lit ''dates'') (JArr (map JStr ds)))
              (lit ''longest_streak'') (JInt longest)"
  have "data_file fs' = Some (Doc (JObj ?k))"
    by (simp add: fs' write_if_changed_data save_data_def d)
  moreover have "dict_get ?k (lit ''dates'') JNull = JArr (map JStr ds)"
    by (simp add: dict_get_dict_set key_neq)
  ultimately have "data_file fs' = Some (Doc (JObj ?k))
           \<and> dict_get ?k (lit ''dates'') JNull = JArr (map JStr ds)
           \<and> sorted ds \<and> distinct ds
           \<and> strftime (clk (snd (load_data clk 0 fs))) \<in> set ds"
    using ds by simp
  then show ?thesis by (intro exI)
qed

theorem main_writes_data_witness:
  "snd (main steady_clock no_files)
     = Inr \<lparr>changed = True, printed = [status_line True, summary_line 1 1 1]\<rparr>
   \<and> snd (main steady_clock (fst (main steady_clock no_files)))
     = Inr \<lparr>changed = False, printed = [status_line False, summary_line 1 1 1]\<rparr>
   \<and> data_file (fst (main steady_clock (fst (main steady_clock no_files))))
     = Some (Doc (JObj [(lit ''dates'', JArr [JStr (lit ''2024-06-01'')]),
                        (lit ''longest_streak'', JInt 1),
                        (lit ''created_at'', JStr (lit ''2024-06-01''))]))
   \<and> (\<exists>kvs ds. data_file (fst (main steady_clock (fst (main steady_clock no_files))))
                   = Some (Doc (JObj kvs))
         \<and> dict_get kvs (lit ''dates'') JNull = JArr (map JStr ds)
         \<and> sorted ds \<and> distinct ds \<and> lit ''2024-06-01'' \<in> set ds)"
proof -
  let ?fs = "fst (main steady_clock no_files)"
  have s1: "snd (main steady_clock no_files)
     = Inr \<lparr>changed = True, printed = [status_line True, summary_line 1 1 1]\<rparr>"
    by code_simp
  have s2: "snd (main steady_clock ?fs)
     = Inr \<lparr>changed = False, printed = [status_line False, summary_line 1 1 1]\<rparr>"
    by code_simp
  have d2: "data_file (fst (main steady_clock ?fs))
     = Some (Doc (JObj [(lit ''dates'', JArr [JStr (lit ''2024-06-01'')]),
                        (lit ''longest_streak'', JInt 1),
                        (lit ''created_at'', JStr (lit ''2024-06-01''))]))"
    by code_simp
  have t: "strftime (steady_clock (snd (load_data steady_clock 0 ?fs))) = lit ''2024-06-01''"
    by code_simp
  have m: "main steady_clock ?fs = (fst (main steady_clock ?fs),
             Inr \<lparr>changed = False, printed = [status_line False, summary_line 1 1 1]\<rparr>)"
    using s2 by (metis prod.collapse)
  show ?thesis
    using s1 s2 d2 main_writes_data [OF m] unfolding t by simp
qed


section \<open>Clock readings and repeated runs\<close>

lemma recount_simps [simp]:
  "recount n m (Inl e) = Inl e"
  "recount n m (Inr (r, k)) = Inr (r, nat (int k - int n + int m))"
  by (simp_all add: recount_def)

lemma recount_same [simp]: "recount n n x = x"
  by (cases x) auto

lemma recount_Suc [simp]: "recount (Suc n) (Suc m) x = recount n m x"
  by (cases x) auto

lemma case_recount [simp]:
  "(case recount n m x of Inl e \<Rightarrow> f e | Inr p \<Rightarrow> g p)
     = (case x of Inl e \<Rightarrow> f e | Inr (r, k) \<Rightarrow> g (r, nat (int k - int n + int m)))"
  by (cases x) auto

lemmas recount_distrib =
  sum.case_distrib [of "recount n m"] list.case_distrib [of "recount n m"]
  prod.case_distrib [of "recount n m"] if_distrib [of "recount n m"]
  json.case_distrib [of "recount n m"] for n m

lemma nat_int_Suc [simp]:
  "nat (1 + int m) = Suc m" "nat (2 + int m) = Suc (Suc m)" "nat (3 + int m) = Suc (Suc (Suc m))"
  by simp_all

lemma calculate_streak_clock:
  assumes "clk1 n = clk2 m"
  shows "calculate_streak clk2 m v = recount n m (calculate_streak clk1 n v)"
  unfolding calculate_streak_def Let_def assms
  by (simp add: recount_distrib
      cong: sum.case_cong list.case_cong prod.case_cong if_cong)

lemma make_calendar_block_clock:
  assumes "clk1 n = clk2 m"
  shows "make_calendar_block clk2 m v months = recount n m (make_calendar_block clk1 n v months)"
  unfolding make_calendar_block_def Let_def assms
  by (simp add: recount_distrib
      cong: sum.case_cong list.case_cong prod.case_cong if_cong)

lemma add_today_if_missing_clock:
  assumes "clk1 n = clk2 m" and "clk1 (Suc n) = clk2 (Suc m)"
  shows "add_today_if_missing clk2 m data = recount n m (add_today_if_missing clk1 n data)"
  unfolding add_today_if_missing_def today_str_def Let_def assms(1)
  by (simp add: recount_distrib calculate_streak_clock [of clk1 "Suc n" clk2 "Suc m", OF assms(2)]
      cong: sum.case_cong list.case_cong prod.case_cong if_cong json.case_cong)

lemma render_streak_md_clock:
  assumes "clk1 n = clk2 m" and "clk1 (Suc n) = clk2 (Suc m)"
    and "clk1 (Suc (Suc n)) = clk2 (Suc (Suc m))"
  shows "render_streak_md clk2 m data current longest
           = recount n m (render_streak_md clk1 n data current longest)"
  unfolding render_streak_md_def today_str_def Let_def assms(1,2)
  by (simp add: recount_distrib assms(1,2)
        make_calendar_block_clock [of clk1 "Suc (Suc n)" clk2 "Suc (Suc m)", OF assms(3)]
      cong: sum.case_cong list.case_cong prod.case_cong if_cong json.case_cong)

lemma load_data_clock:
  assumes "clk1 n = clk2 n"
  shows "load_data clk2 n fs = load_data clk1 n fs"
  using assms by (simp add: load_data_def today_str_def split: option.splits stored.splits)

lemma load_data_counter: "snd (load_data clk 0 fs) = 0 \<or> snd (load_data clk 0 fs) = Suc 0"
  by (simp add: load_data_def today_str_def split: option.splits stored.splits)

lemma calculate_streak_counter:
  assumes "calculate_streak clk n v = Inr (r, k)" and "py_truthy v"
  shows "k = Suc n"
  using assms
  by (auto simp: calculate_streak_def Let_def split: sum.splits list.splits prod.splits if_splits)

lemma add_today_counter:
  assumes "add_today_if_missing clk n data = Inr (r, k)"
  shows "k = Suc (Suc n)"
proof -
  obtain data' current m where r: "r = (data', current, m)" by (cases r)
  from assms [unfolded r] obtain ds longest where
    "strftime (clk n) \<in> set ds"
    "calculate_streak clk (Suc n) (JArr (map JStr ds)) = Inr ((current, longest), k)"
    by (rule add_today_ok)
  then show ?thesis by (intro calculate_streak_counter) auto
qed

text \<open>
  Claim C3, as amended. The clock is read anew at each use, at most six times in a run,
  and a run is determined by the stored files and those readings: two runs from the same
  files whose first six clock readings agree end with the same files and the same
  summary.
\<close>

theorem main_clock_readings:
  assumes "\<forall>i<6. clk1 i = clk2 i"
  shows "main clk1 fs = main clk2 fs"
proof -
  have c: "clk1 0 = clk2 0" "clk1 (Suc 0) = clk2 (Suc 0)" "clk1 (Suc (Suc 0)) = clk2 (Suc (Suc 0))"
    "clk1 (Suc (Suc (Suc 0))) = clk2 (Suc (Suc (Suc 0)))"
    "clk1 (Suc (Suc (Suc (Suc 0)))) = clk2 (Suc (Suc (Suc (Suc 0))))"
    "clk1 (Suc (Suc (Suc (Suc (Suc 0))))) = clk2 (Suc (Suc (Suc (Suc (Suc 0)))))"
    using assms by simp_all
  obtain data0 n1 where l1: "load_data clk1 0 fs = (data0, n1)" by (cases "load_data clk1 0 fs")
  then have l2: "load_data clk2 0 fs = (data0, n1)" using load_data_clock [of clk1 0 clk2, OF c(1)] by simp
  from load_data_counter [of clk1 fs] l1 have n1: "n1 = 0 \<or> n1 = Suc 0" by simp
  have c1: "clk1 n1 = clk2 n1" "clk1 (Suc n1) = clk2 (Suc n1)"
    "clk1 (Suc (Suc n1)) = clk2 (Suc (Suc n1))"
    "clk1 (Suc (Suc (Suc n1))) = clk2 (Suc (Suc (Suc n1)))"
    "clk1 (Suc (Suc (Suc (Suc n1)))) = clk2 (Suc (Suc (Suc (Suc n1))))"
    using n1 c by auto
  have a: "add_today_if_missing clk2 n1 data0 = add_today_if_missing clk1 n1 data0"
    using add_today_if_missing_clock [of clk1 n1 clk2 n1, OF c1(1,2)] by simp
  show ?thesis
  proof (cases "add_today_if_missing clk1 n1 data0")
    case (Inl e)
    then show ?thesis by (simp add: main_def l1 l2 a)
  next
    case (Inr x)
    then obtain data current longest n2 where
      x: "add_today_if_missing clk1 n1 data0 = Inr ((data, current, longest), n2)"
      by (cases x) auto
    from add_today_counter [OF x] have n2: "n2 = Suc (Suc n1)" .
    have r: "render_streak_md clk2 n2 data current longest
               = render_streak_md clk1 n2 data current longest"
      unfolding n2
      using render_streak_md_clock [of clk1 "Suc (Suc n1)" clk2 "Suc (Suc n1)", OF c1(3,4,5)]
      by simp
    show ?thesis by (simp add: main_def l1 l2 a x r)
  qed
qed

theorem main_clock_readings_witness:
  "main steady_clock no_files = main late_clock no_files"
proof -
  have "\<forall>i<6. steady_clock i = late_clock i"
    by (simp add: steady_clock_def late_clock_def)
  then show ?thesis by (rule main_clock_readings)
qed

text \<open>
  Claim C3 as stated fails: the script reads the clock at each use. With no files and a
  first reading of 2024-06-01, a run whose later readings fall on 2024-06-02 stores another
  record than a run whose readings all fall on 2024-06-01.
\<close>

theorem main_single_reading_counterexample:
  "steady_clock 0 = straddle_clock 0
   \<and> data_file (fst (main steady_clock no_files))
       = Some (Doc (JObj [(lit ''dates'', JArr [JStr (lit ''2024-06-01'')]),
                          (lit ''longest_streak'', JInt 1),
                          (lit ''created_at'', JStr (lit ''2024-06-01''))]))
   \<and> data_file (fst (main straddle_clock no_files))
       = Some (Doc (JObj [(lit ''dates'', JArr [JStr (lit ''2024-06-02'')]),
                          (lit ''longest_streak'', JInt 1),
                          (lit ''created_at'', JStr (lit ''2024-06-01''))]))
   \<and> main steady_clock no_files \<noteq> main straddle_clock no_files"
proof -
  have a: "data_file (fst (main steady_clock no_files))
       = Some (Doc (JObj [(lit ''dates'', JArr [JStr (lit ''2024-06-01'')]),
                          (lit ''longest_streak'', JInt 1),
                          (lit ''created_at'', JStr (lit ''2024-06-01''))]))"
    by code_simp
  have b: "data_file (fst (main straddle_clock no_files))
       = Some (Doc (JObj [(lit ''dates'', JArr [JStr (lit ''2024-06-02'')]),
                          (lit ''longest_streak'', JInt 1),
                          (lit ''created_at'', JStr (lit ''2024-06-01''))]))"
    by code_simp
  have "lit ''2024-06-01'' \<noteq> lit ''2024-06-02''" by (simp add: lit_def)
  with a b have "data_file (fst (main steady_clock no_files))
                  \<noteq> data_file (fst (main straddle_clock no_files))" by simp
  then have "main steady_clock no_files \<noteq> main straddle_clock no_files" by metis
  with a b show ?thesis by (simp add: steady_clock_def straddle_clock_def)
qed

lemma normalize_sorted:
  assumes "sorted ds" and "distinct ds"
  shows "normalize_dates (JArr (map JStr ds)) = Inr (map JStr ds)"
proof -
  have "list_all is_str (map JStr ds)" "\<not> list_ex unhashable (map JStr ds)"
    by (simp_all add: list_all_iff list_ex_iff)
  moreover have "map the_str (map JStr ds) = ds" by (simp add: comp_def)
  moreover have "sort (remdups ds) = ds" using assms by (simp add: sorted_sort_id)
  ultimately show ?thesis by (simp add: normalize_dates_def)
qed

lemma py_max_again: "py_max v l = Inr m \<Longrightarrow> py_max (JInt m) l = Inr m"
  by (cases v) (auto split: if_splits)

lemma write_if_changed_twice:
  "write_if_changed new_md (fst (write_if_changed new_md fs))
     = (fst (write_if_changed new_md fs), False)"
  by (simp add: write_if_changed_def read_file_def Let_def)

lemma save_data_same: "data_file fs = Some (Doc d) \<Longrightarrow> save_data d fs = fs"
  by (simp add: save_data_def)

text \<open>On its own result, with the clock standing still, \<open>add_today_if_missing\<close> changes nothing.\<close>

lemma add_today_again:
  assumes "add_today_if_missing (\<lambda>i. today) n data = Inr ((data', current, m), n')"
  shows "add_today_if_missing (\<lambda>i. today) j data' = Inr ((data', current, m), Suc (Suc j))"
proof -
  let ?clk = "\<lambda>i::nat. today"
  let ?D = "lit ''dates''" and ?L = "lit ''longest_streak''"
  from assms obtain kvs ds longest where
    ds: "sorted ds" "distinct ds" "strftime today \<in> set ds"
    and calc: "calculate_streak ?clk (Suc n) (JArr (map JStr ds)) = Inr ((current, longest), n')"
    and mx: "py_max (dict_get kvs ?L (JInt 0)) longest = Inr m"
    and d': "data' = JObj (dict_set (dict_set kvs ?D (JArr (map JStr ds))) ?L (JInt m))"
    by (rule add_today_ok)
  let ?k = "dict_set (dict_set kvs ?D (JArr (map JStr ds))) ?L (JInt m)"
  have g: "dict_get ?k ?D (JArr []) = JArr (map JStr ds)"
    by (simp add: dict_get_dict_set key_neq)
  have s1: "dict_set ?k ?D (JArr (map JStr ds)) = ?k"
    by (rule dict_set_same) (simp add: map_of_dict_set key_neq)
  have gl: "dict_get ?k ?L (JInt 0) = JInt m" by (simp add: dict_get_dict_set)
  have s2: "dict_set ?k ?L (JInt m) = ?k"
    by (rule dict_set_same) (simp add: map_of_dict_set)
  have "calculate_streak ?clk (Suc j) (JArr (map JStr ds))
          = recount (Suc n) (Suc j) (calculate_streak ?clk (Suc n) (JArr (map JStr ds)))"
    by (rule calculate_streak_clock [of "\<lambda>i. today" "Suc n" "\<lambda>i. today" "Suc j"]) simp
  moreover have "n' = Suc (Suc n)" using calc ds(3) by (intro calculate_streak_counter) auto
  ultimately have calc': "calculate_streak ?clk (Suc j) (JArr (map JStr ds))
          = Inr ((current, longest), Suc (Suc j))"
    by (simp add: calc del: recount_Suc)
  have mem: "JStr (strftime today) \<in> set (map JStr ds)" using ds(3) by simp
  have ge: "\<not> m < longest" using py_max_again [OF mx] by (simp split: if_splits)
  show ?thesis
    unfolding d' add_today_if_missing_def today_str_def
    by (simp add: g mem normalize_sorted [OF ds(1,2)] s1 calc' gl ge s2 del: set_map)
qed



section \<open>Stored content that is JSON but not a record\<close>

text \<open>
  Claim C1 fails on the code. \<open>load_data\<close> resets only when the file is absent or
  \<open>json.load\<close> rejects it; a document that decodes but is not a record of the expected
  shape is returned as it is, and the run then ends with an exception: \<open>AttributeError\<close>
  for the document \<open>[]\<close>, \<open>ValueError\<close> from \<open>strptime\<close> for \<open>{"dates": ["hello"]}\<close>. No
  file is written.
\<close>

theorem main_crashes_on_valid_json:
  "load_data steady_clock 0 array_file = (JArr [], 0)
   \<and> main steady_clock array_file = (array_file, Inl AttributeError)
   \<and> main steady_clock bad_date_file = (bad_date_file, Inl ValueError)"
  by code_simp

section \<open>Writing the report only on a difference\<close>



end
